theory Spec2Isabelle
  imports Main "HOL-Library.Sublist"
begin

section \<open>Python strings\<close>

text \<open>
  The script \<^verbatim>\<open>fix-imports.py\<close> works on Python \<^verbatim>\<open>str\<close> values; they are modelled as
  \<^typ>\<open>string\<close>. Every character the script itself inspects or inserts is ASCII.
\<close>

abbreviation dq :: char where "dq \<equiv> CHR 0x22"
abbreviation sq :: char where "sq \<equiv> CHR 0x27"
abbreviation bslash :: char where "bslash \<equiv> CHR 0x5C"
abbreviation CR :: char where "CR \<equiv> CHR 0x0D"
abbreviation LF :: char where "LF \<equiv> CHR 0x0A"

text \<open>
  \<^verbatim>\<open>s.replace(old, new)\<close>: every non-overlapping occurrence of \<open>old\<close>, found scanning from
  the left, is replaced. With an empty \<open>old\<close> Python inserts \<open>new\<close> before every character
  and at the end.
\<close>

function replace_str :: "string \<Rightarrow> string \<Rightarrow> string \<Rightarrow> string" where
  "replace_str old new [] = (if old = [] then new else [])"
| "replace_str old new (c # cs) =
     (if old = [] then new @ c # replace_str old new cs
      else if prefix old (c # cs)
        then new @ replace_str old new (drop (length old) (c # cs))
        else c # replace_str old new cs)"
  by pat_completeness auto
termination
  by (relation "measure (\<lambda>(old, new, s). length s)") auto

text \<open>\<^verbatim>\<open>s.startswith(p)\<close> is \<^const>\<open>prefix\<close>.\<close>

section \<open>The regular expressions of the script\<close>

text \<open>
  Each of the four patterns is a sequence of single-character matchers: a literal character
  or the class \<^verbatim>\<open>["\']\<close>. A regular expression of that shape is a list of character
  classes, each class the list of the characters it admits.
\<close>

type_synonym regex = "char list list"

definition lit :: "string \<Rightarrow> regex" where
  "lit s = map (\<lambda>c. [c]) s"

text \<open>Matching anchored at the start of the string; the result is \<^verbatim>\<open>match.group(0)\<close>.\<close>

fun match_at :: "regex \<Rightarrow> string \<Rightarrow> string option" where
  "match_at [] s = Some []"
| "match_at (cls # r) [] = None"
| "match_at (cls # r) (c # cs) =
     (if c \<in> set cls then map_option ((#) c) (match_at r cs) else None)"

text \<open>
  \<^verbatim>\<open>re.finditer(pattern, content)\<close>: the matched texts of the non-overlapping matches, from
  left to right. The scan resumes after a match (one character further after an empty one).
  The iterator walks the string object it was given, so a later rebinding of
  \<^verbatim>\<open>content\<close> inside the loop does not affect it.
\<close>

function finditer :: "regex \<Rightarrow> string \<Rightarrow> string list" where
  "finditer r [] = (case match_at r [] of None \<Rightarrow> [] | Some m \<Rightarrow> [m])"
| "finditer r (c # cs) =
     (case match_at r (c # cs) of
        None \<Rightarrow> finditer r cs
      | Some m \<Rightarrow>
          if m = [] then m # finditer r cs
          else m # finditer r (drop (length m) (c # cs)))"
  by pat_completeness auto
termination
  by (relation "measure (\<lambda>(r, s). length s)") auto

text \<open>The table \<^verbatim>\<open>patterns\<close> of \<^verbatim>\<open>fix_imports\<close>: (pattern, target directory).\<close>

definition patterns :: "(regex \<times> string) list" where
  "patterns =
    [(lit ''from '' @ [[dq, sq]] @ lit ''@/components/'', ''components''),
     (lit ''from '' @ [[dq, sq]] @ lit ''@/lib/'', ''lib''),
     (lit ''from '' @ [[dq, sq]] @ lit ''@/context/'', ''context''),
     (lit ''from '' @ [[dq, sq]] @ lit ''@/types'', ''types'')]"

section \<open>Paths\<close>

text \<open>
  A \<^verbatim>\<open>pathlib.Path\<close> on a POSIX system: absolute or relative, with its parts. The parts
  of a \<^verbatim>\<open>Path\<close> are never empty, never \<^verbatim>\<open>.\<close> and contain no slash. The model is the
  POSIX one throughout (separator \<^verbatim>\<open>/\<close>, line separator \<^verbatim>\<open>\n\<close>).
\<close>

datatype ppath = Abs "string list" | Rel "string list"

fun parts :: "ppath \<Rightarrow> string list" where
  "parts (Abs ps) = ps"
| "parts (Rel ps) = ps"

text \<open>\<^verbatim>\<open>Path.parent\<close>; the parent of \<^verbatim>\<open>.\<close> and of \<^verbatim>\<open>/\<close> is the path itself.\<close>

fun parent :: "ppath \<Rightarrow> ppath" where
  "parent (Abs ps) = Abs (butlast ps)"
| "parent (Rel ps) = Rel (butlast ps)"

text \<open>\<^verbatim>\<open>path / name\<close> for a single name.\<close>

fun joinpath :: "ppath \<Rightarrow> string \<Rightarrow> ppath" where
  "joinpath (Abs ps) n = Abs (ps @ [n])"
| "joinpath (Rel ps) n = Rel (ps @ [n])"

text \<open>\<^verbatim>\<open>Path.absolute()\<close>: the working directory is put in front, nothing is normalised.\<close>

fun absolute :: "string list \<Rightarrow> ppath \<Rightarrow> ppath" where
  "absolute cwd (Abs ps) = Abs ps"
| "absolute cwd (Rel ps) = Abs (cwd @ ps)"

text \<open>\<^verbatim>\<open>'/'.join(parts)\<close>, which is what \<^verbatim>\<open>posixpath.join\<close> gives on such parts.\<close>

fun join_sep :: "string list \<Rightarrow> string" where
  "join_sep [] = []"
| "join_sep [p] = p"
| "join_sep (p # q # ps) = p @ ''/'' @ join_sep (q # ps)"

text \<open>
  \<^verbatim>\<open>posixpath.normpath\<close> on an absolute path, as a walk over its components: empty
  components and \<^verbatim>\<open>.\<close> are skipped, \<^verbatim>\<open>..\<close> removes the last component kept so far and
  is dropped at the root.
\<close>

definition norm_step :: "string \<Rightarrow> string list \<Rightarrow> string list" where
  "norm_step part acc =
     (if part = [] \<or> part = ''.'' then acc
      else if part \<noteq> ''..'' then acc @ [part]
      else butlast acc)"

definition normpath_abs :: "string list \<Rightarrow> string list" where
  "normpath_abs ps = fold norm_step ps []"

text \<open>\<^verbatim>\<open>os.path.abspath\<close>, as the list of components below the root.\<close>

definition abspath :: "string list \<Rightarrow> ppath \<Rightarrow> string list" where
  "abspath cwd p = normpath_abs (parts (absolute cwd p))"

text \<open>\<^verbatim>\<open>os.path.commonprefix\<close> on two lists of components.\<close>

fun commonprefix :: "string list \<Rightarrow> string list \<Rightarrow> string list" where
  "commonprefix (x # xs) (y # ys) = (if x = y then x # commonprefix xs ys else [])"
| "commonprefix _ _ = []"

datatype error =
  ValueError | FileNotFoundError | IsADirectoryError | UnicodeDecodeError | PermissionError

text \<open>
  \<^verbatim>\<open>os.path.relpath(path, start)\<close>: both arguments are made absolute and normalised, the
  common leading components are dropped, one \<^verbatim>\<open>..\<close> is written for each remaining
  component of \<open>start\<close>, and the rest of \<open>path\<close> follows. An empty result is \<^verbatim>\<open>.\<close>.
  Its \<^verbatim>\<open>ValueError\<close> is raised for an empty path string only, which no \<^verbatim>\<open>Path\<close> has.
\<close>

definition relpath_parts :: "string list \<Rightarrow> ppath \<Rightarrow> ppath \<Rightarrow> string list" where
  "relpath_parts cwd path start =
     (let start_list = abspath cwd start;
          path_list = abspath cwd path;
          i = length (commonprefix start_list path_list)
      in replicate (length start_list - i) ''..'' @ drop i path_list)"

definition os_path_relpath :: "string list \<Rightarrow> ppath \<Rightarrow> ppath \<Rightarrow> error + string" where
  "os_path_relpath cwd path start =
     (let rel_list = relpath_parts cwd path start
      in Inr (if rel_list = [] then ''.'' else join_sep rel_list))"

section \<open>\<^verbatim>\<open>get_relative_path\<close>\<close>

text \<open>
  The library function \<^verbatim>\<open>os.path.relpath\<close> is the parameter \<open>relpath\<close>: it returns a string
  or raises. The bare \<^verbatim>\<open>except\<close> turns every exception into \<^verbatim>\<open>None\<close>.
\<close>

definition get_relative_path ::
  "(ppath \<Rightarrow> ppath \<Rightarrow> error + string) \<Rightarrow> ppath \<Rightarrow> ppath \<Rightarrow> string option" where
  "get_relative_path relpath from_file to_dir =
     (let from_dir = parent from_file;
          to_path = to_dir
      in case relpath to_path from_dir of
           Inl e \<Rightarrow> None
         | Inr r \<Rightarrow>
             (let rel = replace_str [bslash] ''/'' r
              in Some (if prefix ''.'' rel then rel else ''./'' @ rel)))"

section \<open>\<^verbatim>\<open>fix_imports\<close>\<close>

text \<open>
  The body of the inner loop, for one match: \<^verbatim>\<open>if rel_path:\<close> is false for \<^verbatim>\<open>None\<close> and
  for the empty string.
\<close>

definition rewrite_match ::
  "(ppath \<Rightarrow> ppath \<Rightarrow> error + string) \<Rightarrow> string list \<Rightarrow> ppath \<Rightarrow> string \<Rightarrow> string \<Rightarrow> string \<Rightarrow> string" where
  "rewrite_match relpath cwd file_path target_dir old_import content =
     (let src_dir = absolute cwd (Rel [''src'']);
          target_path = joinpath src_dir target_dir
      in case get_relative_path relpath file_path target_path of
           None \<Rightarrow> content
         | Some rel_path \<Rightarrow>
             if rel_path = [] then content
             else (let new_import = replace_str ''@/'' (rel_path @ ''/'') old_import
                   in replace_str old_import new_import content))"

text \<open>The loop over the matches of one pattern, then the loop over the patterns.\<close>

definition rewrite_pattern ::
  "(ppath \<Rightarrow> ppath \<Rightarrow> error + string) \<Rightarrow> string list \<Rightarrow> ppath \<Rightarrow> regex \<times> string \<Rightarrow> string \<Rightarrow> string" where
  "rewrite_pattern relpath cwd file_path pt content =
     fold (rewrite_match relpath cwd file_path (snd pt)) (finditer (fst pt) content) content"

definition rewrite_text ::
  "(ppath \<Rightarrow> ppath \<Rightarrow> error + string) \<Rightarrow> string list \<Rightarrow> ppath \<Rightarrow> string \<Rightarrow> string" where
  "rewrite_text relpath cwd file_path content =
     fold (rewrite_pattern relpath cwd file_path) patterns content"

section \<open>Files\<close>

text \<open>
  The file system as the script sees it: what each path holds, and the order in which the
  directory walk of \<^verbatim>\<open>rglob\<close> meets the entries. \<open>BinaryFile\<close> is a file whose bytes are
  not valid UTF-8. The trace \<open>opened\<close> records every call of \<^verbatim>\<open>open\<close>, and \<open>stdout\<close> the
  lines printed: \<^verbatim>\<open>Fixed: <path>\<close> and \<^verbatim>\<open>Total files processed: <n>\<close>. For a path that
  cannot be opened for writing (a file without write permission, say), \<open>unwritable\<close> gives
  the exception that \<^verbatim>\<open>open(file_path, 'w', ...)\<close> raises; the file is then left as it was.
\<close>

datatype entry = TextFile string | BinaryFile | Directory

datatype out_line = Fixed ppath | Total nat

record world =
  files :: "ppath \<rightharpoonup> entry"
  tree :: "ppath list"
  stdout :: "out_line list"
  opened :: "ppath list"
  unwritable :: "ppath \<rightharpoonup> error"

text \<open>
  \<^verbatim>\<open>open(file_path, 'r', encoding='utf-8')\<close> opens in text mode with the default
  \<^verbatim>\<open>newline=None\<close>: on reading, \<^verbatim>\<open>\r\n\<close> and a lone \<^verbatim>\<open>\r\<close> both become \<^verbatim>\<open>\n\<close>. On
  writing, \<^verbatim>\<open>\n\<close> becomes the line separator of the platform, which is \<^verbatim>\<open>\n\<close> itself.
\<close>

fun univ_nl :: "string \<Rightarrow> string" where
  "univ_nl [] = []"
| "univ_nl [c] = (if c = CR then [LF] else [c])"
| "univ_nl (c # d # cs) =
     (if c = CR \<and> d = LF then LF # univ_nl cs
      else if c = CR then LF # univ_nl (d # cs)
      else c # univ_nl (d # cs))"

text \<open>
  \<^verbatim>\<open>fix_imports\<close>: the file is opened and read, the text is rewritten, the file is opened
  again for writing and the text written. Neither \<^verbatim>\<open>open\<close> is inside a \<^verbatim>\<open>try\<close>: what
  it raises leaves the function.
\<close>

definition fix_imports ::
  "(ppath \<Rightarrow> ppath \<Rightarrow> error + string) \<Rightarrow> string list \<Rightarrow> ppath \<Rightarrow> world \<Rightarrow> (error + bool) \<times> world" where
  "fix_imports relpath cwd file_path w =
     (let w1 = w\<lparr>opened := opened w @ [file_path]\<rparr>
      in case files w file_path of
           None \<Rightarrow> (Inl FileNotFoundError, w1)
         | Some Directory \<Rightarrow> (Inl IsADirectoryError, w1)
         | Some BinaryFile \<Rightarrow> (Inl UnicodeDecodeError, w1)
         | Some (TextFile raw) \<Rightarrow>
             (let content = univ_nl raw;
                  content' = rewrite_text relpath cwd file_path content;
                  w2 = w1\<lparr>opened := opened w1 @ [file_path]\<rparr>
              in case unwritable w file_path of
                   Some e \<Rightarrow> (Inl e, w2)
                 | None \<Rightarrow>
                     (Inr True, w2\<lparr>files := (files w2)(file_path \<mapsto> TextFile content')\<rparr>)))"

section \<open>The main loop\<close>

text \<open>The \<^verbatim>\<open>in\<close> operator on strings.\<close>

fun contains_str :: "string \<Rightarrow> string \<Rightarrow> bool" where
  "contains_str sub [] = (sub = [])"
| "contains_str sub (c # cs) = (prefix sub (c # cs) \<or> contains_str sub cs)"

text \<open>
  \<^verbatim>\<open>Path('src').rglob('*.ts*')\<close>: the entries below \<^verbatim>\<open>src\<close>, in the order of the walk,
  whose name matches \<^verbatim>\<open>*.ts*\<close>, that is, has \<^verbatim>\<open>.ts\<close> somewhere in it.
\<close>

fun glob_ts :: "ppath \<Rightarrow> bool" where
  "glob_ts (Rel (d # rest)) = (d = ''src'' \<and> rest \<noteq> [] \<and> contains_str ''.ts'' (last rest))"
| "glob_ts _ = False"

definition rglob :: "world \<Rightarrow> ppath list" where
  "rglob w = filter glob_ts (tree w)"

fun run_loop ::
  "(ppath \<Rightarrow> ppath \<Rightarrow> error + string) \<Rightarrow> string list \<Rightarrow> ppath list \<Rightarrow> nat \<Rightarrow> world \<Rightarrow> (error + nat) \<times> world" where
  "run_loop relpath cwd [] files_processed w = (Inr files_processed, w)"
| "run_loop relpath cwd (file_path # rest) files_processed w =
     (case fix_imports relpath cwd file_path w of
        (Inl e, w') \<Rightarrow> (Inl e, w')
      | (Inr ok, w') \<Rightarrow>
          if ok
          then run_loop relpath cwd rest (files_processed + 1)
                 (w'\<lparr>stdout := stdout w' @ [Fixed file_path]\<rparr>)
          else run_loop relpath cwd rest files_processed w')"

definition run ::
  "(ppath \<Rightarrow> ppath \<Rightarrow> error + string) \<Rightarrow> string list \<Rightarrow> world \<Rightarrow> (error + nat) \<times> world" where
  "run relpath cwd w =
     (case run_loop relpath cwd (rglob w) 0 w of
        (Inl e, w') \<Rightarrow> (Inl e, w')
      | (Inr n, w') \<Rightarrow> (Inr n, w'\<lparr>stdout := stdout w' @ [Total n]\<rparr>))"

section \<open>Notions used in the statements\<close>

text \<open>
  A name as a directory walk reports it: not empty, neither \<^verbatim>\<open>.\<close> nor \<^verbatim>\<open>..\<close>, without a
  slash. The paths that \<^verbatim>\<open>Path('src').rglob(...)\<close> yields are relative, start with
  \<^verbatim>\<open>src\<close> and continue with such names.
\<close>

definition proper_name :: "string \<Rightarrow> bool" where
  "proper_name n = (n \<noteq> [] \<and> n \<noteq> ''.'' \<and> n \<noteq> ''..'' \<and> CHR ''/'' \<notin> set n)"

fun src_file :: "ppath \<Rightarrow> bool" where
  "src_file (Rel (d # rest)) = (d = ''src'' \<and> rest \<noteq> [] \<and> list_all proper_name rest)"
| "src_file _ = False"

text \<open>All matches of the four patterns in a text, pattern by pattern.\<close>

definition alias_matches :: "string \<Rightarrow> string list" where
  "alias_matches content = concat (map (\<lambda>pt. finditer (fst pt) content) patterns)"

text \<open>
  The rewriting that works span by span, as \<^verbatim>\<open>re.sub\<close> with a function does: the text is
  scanned once, and each match is replaced where it stands by the replacement computed for it.
\<close>

function sub_spans :: "regex \<Rightarrow> (string \<Rightarrow> string) \<Rightarrow> string \<Rightarrow> string" where
  "sub_spans r repl [] = (case match_at r [] of None \<Rightarrow> [] | Some m \<Rightarrow> repl m)"
| "sub_spans r repl (c # cs) =
     (case match_at r (c # cs) of
        None \<Rightarrow> c # sub_spans r repl cs
      | Some m \<Rightarrow>
          if m = [] then repl m @ c # sub_spans r repl cs
          else repl m @ sub_spans r repl (drop (length m) (c # cs)))"
  by pat_completeness auto
termination
  by (relation "measure (\<lambda>(r, repl, s). length s)") auto

text \<open>
  The replacement of one match, with the relative path computed for that match: the matched
  text with \<^verbatim>\<open>@/\<close> replaced, or the matched text itself when no path is computed.
\<close>

definition span_replacement ::
  "(ppath \<Rightarrow> ppath \<Rightarrow> error + string) \<Rightarrow> string list \<Rightarrow> ppath \<Rightarrow> string \<Rightarrow> string \<Rightarrow> string" where
  "span_replacement relpath cwd file_path target_dir old_import =
     (case get_relative_path relpath file_path
             (joinpath (absolute cwd (Rel [''src''])) target_dir) of
        None \<Rightarrow> old_import
      | Some rel_path \<Rightarrow>
          if rel_path = [] then old_import
          else replace_str ''@/'' (rel_path @ ''/'') old_import)"

definition span_rewrite_pattern ::
  "(ppath \<Rightarrow> ppath \<Rightarrow> error + string) \<Rightarrow> string list \<Rightarrow> ppath \<Rightarrow> regex \<times> string \<Rightarrow> string \<Rightarrow> string" where
  "span_rewrite_pattern relpath cwd file_path pt content =
     sub_spans (fst pt) (span_replacement relpath cwd file_path (snd pt)) content"

section \<open>Replacing and matching around a marker character\<close>

text \<open>
  Every pattern starts with the letter \<^verbatim>\<open>f\<close> and admits it nowhere else, and so does every
  text put in place of a match. A match can therefore neither overlap another one nor be
  created by a replacement; the lemmas of this section are stated for any such marker.
\<close>

declare replace_str.simps [simp del] finditer.simps [simp del]

lemma replace_str_skip:
  assumes "old \<noteq> []" "hd old \<notin> set u"
  shows "replace_str old new (u @ t) = u @ replace_str old new t"
  using assms
proof (induction u)
  case Nil
  then show ?case by simp
next
  case (Cons x u)
  then have "\<not> prefix old (x # u @ t)" by (cases old) auto
  with Cons show ?case by (simp add: replace_str.simps)
qed

lemma replace_str_hit:
  assumes "old \<noteq> []"
  shows "replace_str old new (old @ t) = new @ replace_str old new t"
proof -
  obtain h ot where old: "old = h # ot" using assms by (cases old) auto
  show ?thesis unfolding old by (simp add: replace_str.simps)
qed

lemma replace_str_miss:
  assumes "old \<noteq> []" "\<not> prefix old (x # xs)"
  shows "replace_str old new (x # xs) = x # replace_str old new xs"
  using assms by (simp add: replace_str.simps)

lemma replace_str_Nil: "old \<noteq> [] \<Longrightarrow> replace_str old new [] = []"
  by (simp add: replace_str.simps)

lemma match_at_Some:
  "match_at r s = Some m \<Longrightarrow> s = m @ drop (length m) s \<and> length m = length r \<and> list_all2 (\<lambda>c cls. c \<in> set cls) m r"
proof (induction r s arbitrary: m rule: match_at.induct)
  case (1 s)
  then show ?case by simp
next
  case (2 cls r)
  then show ?case by simp
next
  case (3 cls r c cs)
  then show ?case by (auto split: if_splits)
qed

lemma match_at_lang:
  "list_all2 (\<lambda>c cls. c \<in> set cls) m r \<Longrightarrow> match_at r (m @ t) = Some m"
  by (induction m r rule: list_all2_induct) auto

lemma match_at_avoid:
  assumes "match_at bp s = Some mb" "\<forall>cls\<in>set bp. a \<notin> set cls"
  shows "a \<notin> set mb"
proof -
  have "list_all2 (\<lambda>c cls. c \<in> set cls) mb bp" using match_at_Some [OF assms(1)] by simp
  then show ?thesis using assms(2) by (induction mb bp rule: list_all2_induct) auto
qed

lemma match_at_replace:
  assumes "\<forall>cls\<in>set bp. a \<notin> set cls" "a \<notin> set ob"
  shows "match_at bp (replace_str (a # ob) (a # nb) xs) = match_at bp xs"
  using assms(1)
proof (induction bp arbitrary: xs)
  case Nil
  then show ?case by simp
next
  case (Cons cls bp)
  show ?case
  proof (cases xs)
    case Nil
    then show ?thesis by (simp add: replace_str.simps)
  next
    case (Cons y ys)
    show ?thesis
    proof (cases "y = a")
      case True
      then have "\<exists>z. replace_str (a # ob) (a # nb) xs = a # z"
        using Cons by (simp add: replace_str.simps)
      then show ?thesis using Cons True Cons.prems by auto
    next
      case False
      then have "replace_str (a # ob) (a # nb) xs = y # replace_str (a # ob) (a # nb) ys"
        using Cons by (simp add: replace_str.simps)
      then show ?thesis using Cons Cons.IH Cons.prems by simp
    qed
  qed
qed

lemma finditer_skip:
  assumes "a \<notin> set u"
  shows "finditer ([a] # bp) (u @ t) = finditer ([a] # bp) t"
  using assms by (induction u) (auto simp: finditer.simps)

lemma finditer_step:
  assumes "\<forall>cls\<in>set bp. a \<notin> set cls"
  shows "finditer ([a] # bp) (x # xs) =
         (case match_at ([a] # bp) (x # xs) of None \<Rightarrow> [] | Some m \<Rightarrow> [m]) @ finditer ([a] # bp) xs"
proof (cases "match_at ([a] # bp) (x # xs)")
  case None
  then show ?thesis by (simp add: finditer.simps)
next
  case (Some m)
  then obtain mb where m: "m = a # mb" "x = a" "match_at bp xs = Some mb"
    by (auto split: if_splits)
  have xs: "xs = mb @ drop (length mb) xs" using match_at_Some [OF m(3)] by blast
  have "a \<notin> set mb" using match_at_avoid [OF m(3) assms] .
  then have "finditer ([a] # bp) (mb @ drop (length mb) xs) = finditer ([a] # bp) (drop (length mb) xs)"
    by (rule finditer_skip)
  then have "finditer ([a] # bp) xs = finditer ([a] # bp) (drop (length mb) xs)"
    using xs by simp
  then show ?thesis using Some m by (simp add: finditer.simps)
qed

lemma finditer_Nil: "finditer (cls # bp) [] = []"
  by (simp add: finditer.simps)

lemma finditer_replace:
  assumes bp: "\<forall>cls\<in>set bp. a \<notin> set cls"
    and ob: "a \<notin> set ob" and nb: "a \<notin> set nb"
    and nomatch: "\<And>t. match_at ([a] # bp) (a # nb @ t) = None"
  shows "set (finditer ([a] # bp) (replace_str (a # ob) (a # nb) c))
         \<subseteq> set (finditer ([a] # bp) c) - {a # ob}"
proof (induction c)
  case Nil
  then show ?case by (simp add: replace_str.simps finditer.simps)
next
  case (Cons x xs)
  let ?r = "[a] # bp" and ?old = "a # ob" and ?new = "a # nb"
  show ?case
  proof (cases "prefix ?old (x # xs)")
    case True
    then obtain rest where rest: "x # xs = ?old @ rest" by (auto simp: prefix_def)
    then have xs: "xs = ob @ rest" and x: "x = a" by auto
    have R1: "replace_str ?old ?new (x # xs) = ?new @ replace_str ?old ?new rest"
      unfolding rest by (rule replace_str_hit) simp
    have R2: "replace_str ?old ?new xs = ob @ replace_str ?old ?new rest"
      unfolding xs by (rule replace_str_skip) (use ob in auto)
    have "finditer ?r (?new @ replace_str ?old ?new rest)
          = finditer ?r (nb @ replace_str ?old ?new rest)"
      using finditer_step [OF bp, of a "nb @ replace_str ?old ?new rest"] nomatch by simp
    also have "\<dots> = finditer ?r (replace_str ?old ?new rest)"
      using finditer_skip [OF nb] by simp
    also have "\<dots> = finditer ?r (replace_str ?old ?new xs)"
      unfolding R2 using finditer_skip [OF ob] by simp
    finally have "set (finditer ?r (replace_str ?old ?new (x # xs))) \<subseteq> set (finditer ?r xs) - {?old}"
      using Cons.IH R1 by simp
    then show ?thesis using finditer_step [OF bp, of x xs] by auto
  next
    case False
    have R1: "replace_str ?old ?new (x # xs) = x # replace_str ?old ?new xs"
      using False by (simp add: replace_str_miss)
    have M: "match_at ?r (x # replace_str ?old ?new xs) = match_at ?r (x # xs)"
      using match_at_replace [OF bp ob] by simp
    have neq: "match_at ?r (x # xs) \<noteq> Some ?old"
    proof
      assume "match_at ?r (x # xs) = Some ?old"
      from match_at_Some [OF this] have "prefix ?old (x # xs)"
        by (metis prefixI)
      with False show False by simp
    qed
    show ?thesis
      unfolding R1 finditer_step [OF bp, of x "replace_str ?old ?new xs"] finditer_step [OF bp, of x xs] M
      using Cons.IH neq by (auto split: option.splits)
  qed
qed

section \<open>The shape of the patterns and of their matches\<close>

lemma patterns_image:
  assumes "(pat, tgt) \<in> set patterns"
  shows "pat \<in> (\<lambda>body. lit ''from '' @ [[dq, sq]] @ lit ''@/'' @ lit body)
                 ` {''components/'', ''lib/'', ''context/'', ''types''}"
  using assms by (auto simp: patterns_def lit_def)

lemma patterns_form:
  assumes "(pat, tgt) \<in> set patterns"
  shows "\<exists>body. pat = lit ''from '' @ [[dq, sq]] @ lit ''@/'' @ lit body
           \<and> body \<in> {''components/'', ''lib/'', ''context/'', ''types''}"
  using patterns_image [OF assms] by blast

lemma patterns_target:
  assumes "(pat, tgt) \<in> set patterns"
  shows "tgt \<in> {''components'', ''lib'', ''context'', ''types''}"
  using assms by (auto simp: patterns_def)

lemma match_at_lit:
  "match_at (lit u @ r) s = Some m \<longleftrightarrow> (\<exists>t m'. s = u @ t \<and> match_at r t = Some m' \<and> m = u @ m')"
proof (induction u arbitrary: s m)
  case Nil
  then show ?case by (simp add: lit_def)
next
  case (Cons x u)
  show ?case
  proof (cases s)
    case Nil
    then show ?thesis by (simp add: lit_def)
  next
    case (Cons y ys)
    then show ?thesis using Cons.IH [of ys] by (auto simp: lit_def)
  qed
qed

lemma match_at_lit_end:
  "match_at (lit u) s = Some m \<longleftrightarrow> (prefix u s \<and> m = u)"
  using match_at_lit [of u "[]" s m] by (auto simp: prefix_def)

lemma pattern_match_form:
  assumes "(pat, tgt) \<in> set patterns" "match_at pat s = Some m"
  shows "\<exists>q body t. m = ''from '' @ [q] @ ''@/'' @ body \<and> s = m @ t \<and> (q = dq \<or> q = sq)
           \<and> body \<in> {''components/'', ''lib/'', ''context/'', ''types''}"
proof -
  obtain body where pat: "pat = lit ''from '' @ [[dq, sq]] @ lit ''@/'' @ lit body"
    and body: "body \<in> {''components/'', ''lib/'', ''context/'', ''types''}"
    using patterns_form [OF assms(1)] by blast
  from assms(2) obtain t1 m1 where 1: "s = ''from '' @ t1" "match_at ([[dq, sq]] @ lit ''@/'' @ lit body) t1 = Some m1" "m = ''from '' @ m1"
    unfolding pat match_at_lit by blast
  from 1(2) obtain q t2 m2 where 2: "t1 = q # t2" "q = dq \<or> q = sq" "match_at (lit ''@/'' @ lit body) t2 = Some m2" "m1 = q # m2"
    by (cases t1) (auto split: if_splits)
  from 2(3) obtain t3 m3 where 3: "t2 = ''@/'' @ t3" "match_at (lit body) t3 = Some m3" "m2 = ''@/'' @ m3"
    unfolding match_at_lit by blast
  from 3(2) obtain t4 where 4: "t3 = body @ t4" "m3 = body"
    unfolding match_at_lit_end by (auto simp: prefix_def)
  show ?thesis using 1 2 3 4 body by auto
qed

lemma pattern_marker:
  assumes "(pat, tgt) \<in> set patterns"
  shows "\<exists>bp. pat = [CHR ''f''] # bp \<and> (\<forall>cls\<in>set bp. CHR ''f'' \<notin> set cls)"
  using assms by (auto simp: patterns_def lit_def)

lemma pattern_needs_at:
  assumes "(pat, tgt) \<in> set patterns" "match_at pat s = Some m"
  shows "\<exists>u t. s = u @ CHR ''@'' # t \<and> length u = 6"
proof -
  obtain q body t where "m = ''from '' @ [q] @ ''@/'' @ body" "s = m @ t"
    using pattern_match_form [OF assms] by blast
  then have "s = (''from '' @ [q]) @ CHR ''@'' # (''/'' @ body @ t) \<and> length (''from '' @ [q]) = 6"
    by simp
  then show ?thesis by blast
qed

section \<open>The relative path of a file below \<^verbatim>\<open>src\<close>\<close>

lemma set_replace_str: "set (replace_str old new s) \<subseteq> set s \<union> set new"
proof (induction old new s rule: replace_str.induct)
  case (1 old new)
  then show ?case by (auto simp: replace_str.simps)
next
  case (2 old new c cs)
  have "set (drop (length old) (c # cs)) \<subseteq> set (c # cs)" by (rule set_drop_subset)
  with 2 show ?case by (auto simp: replace_str.simps(2) simp del: drop_Suc_Cons)
qed

lemma fold_norm_proper:
  "list_all proper_name ys \<Longrightarrow> fold norm_step ys acc = acc @ ys"
  by (induction ys arbitrary: acc) (auto simp: norm_step_def proper_name_def)

lemma commonprefix_append:
  "commonprefix (xs @ a) (xs @ b) = xs @ commonprefix a b"
  by (induction xs) auto

lemma set_join_sep: "set (join_sep ps) \<subseteq> {CHR ''/''} \<union> \<Union> (set ` set ps)"
  by (induction ps rule: join_sep.induct) auto

lemma relpath_src:
  assumes "src_file p" "proper_name tgt"
  shows "\<exists>k j. relpath_parts cwd (joinpath (absolute cwd (Rel [''src''])) tgt) (parent p)
           = replicate k ''..'' @ drop j [tgt]"
proof -
  obtain rest where p: "p = Rel (''src'' # rest)" "rest \<noteq> []" "list_all proper_name rest"
    using assms(1) by (cases p rule: src_file.cases) auto
  let ?N = "normpath_abs cwd"
  have pr: "list_all proper_name (butlast rest)" using p(3)
    by (metis append_butlast_last_id list_all_append p(2))
  have src: "proper_name ''src''" by (simp add: proper_name_def)
  have s: "abspath cwd (parent p) = ?N @ ''src'' # butlast rest"
    using p fold_norm_proper [of "''src'' # butlast rest" ?N] pr src
    by (simp add: abspath_def normpath_abs_def)
  have t: "abspath cwd (joinpath (absolute cwd (Rel [''src''])) tgt) = ?N @ [''src'', tgt]"
    using fold_norm_proper [of "[''src'', tgt]" ?N] src assms(2)
    by (simp add: abspath_def normpath_abs_def)
  have c: "commonprefix (?N @ ''src'' # butlast rest) (?N @ [''src'', tgt])
           = ?N @ ''src'' # commonprefix (butlast rest) [tgt]"
    using commonprefix_append [of ?N "''src'' # butlast rest" "[''src'', tgt]"] by simp
  show ?thesis unfolding relpath_parts_def s t c Let_def
    by (intro exI [of _ "length (butlast rest) - length (commonprefix (butlast rest) [tgt])"]
              exI [of _ "length (commonprefix (butlast rest) [tgt])"]) simp
qed

lemma get_relative_path_src:
  assumes "src_file p" "proper_name tgt"
  shows "\<exists>r. get_relative_path (os_path_relpath cwd) p (joinpath (absolute cwd (Rel [''src''])) tgt)
             = Some (CHR ''.'' # r)
           \<and> set r \<subseteq> {CHR ''.'', CHR ''/''} \<union> set tgt"
proof -
  let ?t = "joinpath (absolute cwd (Rel [''src''])) tgt"
  obtain k j where rp: "relpath_parts cwd ?t (parent p) = replicate k ''..'' @ drop j [tgt]"
    using relpath_src [OF assms] by blast
  define r0 where "r0 = (if relpath_parts cwd ?t (parent p) = [] then ''.''
                         else join_sep (relpath_parts cwd ?t (parent p)))"
  have "\<Union> (set ` set (replicate k ''..'' @ drop j [tgt])) \<subseteq> {CHR ''.''} \<union> set tgt"
    by (cases j) auto
  then have "set (join_sep (relpath_parts cwd ?t (parent p))) \<subseteq> {CHR ''.'', CHR ''/''} \<union> set tgt"
    using set_join_sep [of "relpath_parts cwd ?t (parent p)"] unfolding rp by blast
  then have r0: "set r0 \<subseteq> {CHR ''.'', CHR ''/''} \<union> set tgt" by (simp add: r0_def)
  define rel where "rel = replace_str [bslash] ''/'' r0"
  have rel: "set rel \<subseteq> {CHR ''.'', CHR ''/''} \<union> set tgt"
    using set_replace_str [of "[bslash]" "''/''" r0] r0 unfolding rel_def by auto
  have g: "get_relative_path (os_path_relpath cwd) p ?t
           = Some (if prefix ''.'' rel then rel else ''./'' @ rel)"
    by (simp add: get_relative_path_def os_path_relpath_def Let_def rel_def r0_def)
  show ?thesis
  proof (cases "prefix ''.'' rel")
    case True
    then obtain r where "rel = CHR ''.'' # r" by (auto simp: prefix_def)
    then show ?thesis using g rel True by auto
  next
    case False
    then show ?thesis using g rel by auto
  qed
qed

lemma new_import_form:
  assumes "q = dq \<or> q = sq" "CHR ''@'' \<notin> set body"
  shows "replace_str ''@/'' new (''from '' @ [q] @ ''@/'' @ body) = ''from '' @ [q] @ new @ body"
proof -
  have 1: "replace_str ''@/'' new ((''from '' @ [q]) @ (''@/'' @ body))
         = (''from '' @ [q]) @ replace_str ''@/'' new (''@/'' @ body)"
    by (rule replace_str_skip) (use assms in auto)
  have 2: "replace_str ''@/'' new (''@/'' @ body) = new @ replace_str ''@/'' new body"
    by (rule replace_str_hit) simp
  have 3: "replace_str ''@/'' new (body @ []) = body @ replace_str ''@/'' new []"
    by (rule replace_str_skip) (use assms in auto)
  show ?thesis using 1 2 3 by (simp add: replace_str_Nil)
qed

text \<open>What the loop body does for a file below src and a matched text of one of the patterns.\<close>

lemma rewrite_match_src:
  assumes p: "src_file p" and pt: "(pat, tgt) \<in> set patterns"
    and m: "match_at pat' s = Some m" "(pat', tgt') \<in> set patterns"
  shows "\<exists>ob nb. m = CHR ''f'' # ob \<and> CHR ''f'' \<notin> set ob \<and> CHR ''f'' \<notin> set nb
           \<and> CR \<notin> set nb
           \<and> (\<exists>u t. nb = u @ CHR ''.'' # t \<and> length u = 5)
           \<and> span_replacement (os_path_relpath cwd) cwd p tgt m = CHR ''f'' # nb
           \<and> (\<forall>c. rewrite_match (os_path_relpath cwd) cwd p tgt m c
                   = replace_str (CHR ''f'' # ob) (CHR ''f'' # nb) c)"
proof -
  obtain q body where mf: "m = ''from '' @ [q] @ ''@/'' @ body" "q = dq \<or> q = sq"
    "body \<in> {''components/'', ''lib/'', ''context/'', ''types''}"
    using pattern_match_form [OF m(2,1)] by blast
  have tgt: "tgt \<in> {''components'', ''lib'', ''context'', ''types''}"
    using patterns_target [OF pt] .
  then have "proper_name tgt" by (auto simp: proper_name_def)
  then obtain r where r: "get_relative_path (os_path_relpath cwd) p
        (joinpath (absolute cwd (Rel [''src''])) tgt) = Some (CHR ''.'' # r)"
    "set r \<subseteq> {CHR ''.'', CHR ''/''} \<union> set tgt"
    using get_relative_path_src [OF p] by blast
  have bodyat: "CHR ''@'' \<notin> set body" using mf(3) by auto
  have ni: "replace_str ''@/'' ((CHR ''.'' # r) @ ''/'') m = ''from '' @ [q] @ ((CHR ''.'' # r) @ ''/'') @ body"
    unfolding mf(1) by (rule new_import_form [OF mf(2) bodyat])
  define ob where "ob = ''rom '' @ [q] @ ''@/'' @ body"
  define nb where "nb = ''rom '' @ [q] @ ((CHR ''.'' # r) @ ''/'') @ body"
  have rf: "CHR ''f'' \<notin> set r" "CR \<notin> set r" using r(2) tgt by auto
  have 1: "m = CHR ''f'' # ob" by (simp add: ob_def mf(1))
  have 2: "CHR ''f'' \<notin> set ob" using mf(2,3) by (auto simp: ob_def)
  have 3: "CHR ''f'' \<notin> set nb" using mf(2,3) rf by (auto simp: nb_def)
  have 4: "CR \<notin> set nb" using mf(2,3) rf by (auto simp: nb_def)
  have 5: "nb = (''rom '' @ [q]) @ CHR ''.'' # (r @ ''/'' @ body) \<and> length (''rom '' @ [q]) = 5"
    by (simp add: nb_def)
  have 6: "rewrite_match (os_path_relpath cwd) cwd p tgt m c
           = replace_str (CHR ''f'' # ob) (CHR ''f'' # nb) c" for c
    using ni r(1) by (simp add: rewrite_match_def Let_def 1 [symmetric] nb_def)
  have 7: "span_replacement (os_path_relpath cwd) cwd p tgt m = CHR ''f'' # nb"
    using ni r(1) by (simp add: span_replacement_def nb_def)
  show ?thesis using 1 2 3 4 5 6 7 by blast
qed

section \<open>Matches before and after a rewriting step\<close>

lemma finditer_sound:
  "m \<in> set (finditer r s) \<Longrightarrow> \<exists>t. match_at r t = Some m"
proof (induction r s rule: finditer.induct)
  case (1 r)
  then show ?case by (auto simp: finditer.simps split: option.splits)
next
  case (2 r c cs)
  then show ?case
    by (cases "match_at r (c # cs)") (auto simp: finditer.simps(2) split: if_splits simp del: match_at.simps)
qed

lemma pattern_rejects_new:
  assumes "(pat, tgt) \<in> set patterns" "nb = u @ CHR ''.'' # t" "length u = 5"
  shows "match_at pat (CHR ''f'' # nb @ t') = None"
proof (rule ccontr)
  assume "match_at pat (CHR ''f'' # nb @ t') \<noteq> None"
  then obtain m where "match_at pat (CHR ''f'' # nb @ t') = Some m" by auto
  from pattern_needs_at [OF assms(1) this] obtain u' t'' where
    e: "CHR ''f'' # nb @ t' = u' @ CHR ''@'' # t''" and l: "length u' = 6" by blast
  have "(CHR ''f'' # u) @ (CHR ''.'' # t @ t') = u' @ (CHR ''@'' # t'')"
    using e assms(2) by simp
  moreover have "length (CHR ''f'' # u) = length u'" using l assms(3) by simp
  ultimately have "CHR ''.'' # t @ t' = CHR ''@'' # t''" by (metis append_eq_append_conv)
  then show False by simp
qed

lemma rewrite_match_matches:
  assumes p: "src_file p" and pt: "(pat, tgt) \<in> set patterns"
    and m: "match_at pat' s = Some m" "(pat', tgt') \<in> set patterns"
    and j: "(patj, tgtj) \<in> set patterns"
  shows "set (finditer patj (rewrite_match (os_path_relpath cwd) cwd p tgt m c))
         \<subseteq> set (finditer patj c) - {m}"
proof -
  obtain ob nb u t where f: "m = CHR ''f'' # ob" "CHR ''f'' \<notin> set ob" "CHR ''f'' \<notin> set nb"
    "nb = u @ CHR ''.'' # t" "length u = 5"
    and rw: "\<And>c. rewrite_match (os_path_relpath cwd) cwd p tgt m c
                   = replace_str (CHR ''f'' # ob) (CHR ''f'' # nb) c"
    using rewrite_match_src [OF p pt m, of cwd] by blast
  obtain bp where bp: "patj = [CHR ''f''] # bp" "\<forall>cls\<in>set bp. CHR ''f'' \<notin> set cls"
    using pattern_marker [OF j] by blast
  have nm: "match_at ([CHR ''f''] # bp) (CHR ''f'' # nb @ t') = None" for t'
    using pattern_rejects_new [OF j f(4,5)] bp(1) by simp
  show ?thesis unfolding f(1) bp(1) rw [unfolded f(1)]
    by (rule finditer_replace [OF bp(2) f(2,3) nm])
qed

lemma fold_rewrite_match_matches:
  assumes p: "src_file p" and pt: "(pat, tgt) \<in> set patterns"
    and ms: "\<forall>m\<in>set ms. \<exists>s. match_at pat s = Some m"
    and j: "(patj, tgtj) \<in> set patterns"
  shows "set (finditer patj (fold (rewrite_match (os_path_relpath cwd) cwd p tgt) ms c))
         \<subseteq> set (finditer patj c) - set ms"
  using ms
proof (induction ms arbitrary: c)
  case Nil
  then show ?case by simp
next
  case (Cons m ms)
  then obtain s where s: "match_at pat s = Some m" by auto
  have "set (finditer patj (rewrite_match (os_path_relpath cwd) cwd p tgt m c))
         \<subseteq> set (finditer patj c) - {m}"
    by (rule rewrite_match_matches [OF p pt s pt j])
  moreover have "set (finditer patj (fold (rewrite_match (os_path_relpath cwd) cwd p tgt) ms
                   (rewrite_match (os_path_relpath cwd) cwd p tgt m c)))
         \<subseteq> set (finditer patj (rewrite_match (os_path_relpath cwd) cwd p tgt m c)) - set ms"
    using Cons by simp
  ultimately show ?case by auto
qed

lemma rewrite_pattern_matches:
  assumes p: "src_file p" and pt: "pt \<in> set patterns" and j: "ptj \<in> set patterns"
  shows "set (finditer (fst ptj) (rewrite_pattern (os_path_relpath cwd) cwd p pt c))
         \<subseteq> set (finditer (fst ptj) c) - set (finditer (fst pt) c)"
proof -
  obtain pat tgt patj tgtj where e: "pt = (pat, tgt)" "ptj = (patj, tgtj)"
    by (cases pt, cases ptj) auto
  have "\<forall>m\<in>set (finditer pat c). \<exists>s. match_at pat s = Some m"
    using finditer_sound by blast
  from fold_rewrite_match_matches [OF p pt [unfolded e] this j [unfolded e]]
  show ?thesis by (simp add: rewrite_pattern_def e)
qed

lemma fold_rewrite_pattern_clean:
  assumes p: "src_file p" and j: "ptj \<in> set patterns"
  shows "set ps \<subseteq> set patterns \<Longrightarrow> finditer (fst ptj) c = [] \<or> ptj \<in> set ps
         \<Longrightarrow> finditer (fst ptj) (fold (rewrite_pattern (os_path_relpath cwd) cwd p) ps c) = []"
proof (induction ps arbitrary: c)
  case Nil
  then show ?case by simp
next
  case (Cons pt ps)
  let ?c = "rewrite_pattern (os_path_relpath cwd) cwd p pt c"
  have pt: "pt \<in> set patterns" using Cons.prems(1) by simp
  have sub: "set (finditer (fst ptj) ?c) \<subseteq> set (finditer (fst ptj) c) - set (finditer (fst pt) c)"
    by (rule rewrite_pattern_matches [OF p pt j])
  have "finditer (fst ptj) ?c = [] \<or> ptj \<in> set ps"
  proof (cases "finditer (fst ptj) c = [] \<or> ptj = pt")
    case True
    then have "set (finditer (fst ptj) ?c) = {}" using sub by auto
    then show ?thesis by simp
  next
    case False
    then show ?thesis using Cons.prems(2) by auto
  qed
  then show ?case using Cons.IH [of ?c] Cons.prems(1) by simp
qed

lemma alias_matches_Nil_iff:
  "alias_matches c = [] \<longleftrightarrow> (\<forall>pt\<in>set patterns. finditer (fst pt) c = [])"
  by (auto simp: alias_matches_def)

lemma rewrite_text_clean:
  assumes "src_file p"
  shows "alias_matches (rewrite_text (os_path_relpath cwd) cwd p c) = []"
  unfolding alias_matches_Nil_iff rewrite_text_def
  using fold_rewrite_pattern_clean [OF assms, of _ patterns c cwd] by blast

lemma fold_rewrite_pattern_id:
  "\<forall>pt\<in>set ps. finditer (fst pt) c = [] \<Longrightarrow> fold (rewrite_pattern relpath cwd p) ps c = c"
  by (induction ps) (auto simp: rewrite_pattern_def)

lemma rewrite_text_id:
  "alias_matches c = [] \<Longrightarrow> rewrite_text relpath cwd p c = c"
  unfolding alias_matches_Nil_iff rewrite_text_def by (rule fold_rewrite_pattern_id)

lemma rewrite_text_no_CR:
  assumes p: "src_file p" and c: "CR \<notin> set c"
  shows "CR \<notin> set (rewrite_text (os_path_relpath cwd) cwd p c)"
proof -
  have step: "CR \<notin> set (rewrite_match (os_path_relpath cwd) cwd p tgt m c)"
    if h1: "(pat, tgt) \<in> set patterns" and h2: "match_at pat s = Some m" and h3: "CR \<notin> set c"
    for pat tgt m s c
  proof -
    obtain ob nb where f: "m = CHR ''f'' # ob" "CR \<notin> set nb"
      and rw: "\<And>c. rewrite_match (os_path_relpath cwd) cwd p tgt m c
                   = replace_str (CHR ''f'' # ob) (CHR ''f'' # nb) c"
      using rewrite_match_src [OF p h1 h2 h1, of cwd] by blast
    show ?thesis unfolding rw
      using set_replace_str [of "CHR ''f'' # ob" "CHR ''f'' # nb" c] f(2) h3 by auto
  qed
  have fm: "CR \<notin> set (fold (rewrite_match (os_path_relpath cwd) cwd p tgt) ms c)"
    if "(pat, tgt) \<in> set patterns" "\<forall>m\<in>set ms. \<exists>s. match_at pat s = Some m" "CR \<notin> set c"
    for pat tgt ms c
    using that(2,3)
  proof (induction ms arbitrary: c)
    case Nil
    then show ?case by simp
  next
    case (Cons m ms)
    then obtain s where "match_at pat s = Some m" by auto
    from step [OF \<open>(pat, tgt) \<in> set patterns\<close> this Cons.prems(2)] Cons show ?case by simp
  qed
  have rp: "CR \<notin> set (rewrite_pattern (os_path_relpath cwd) cwd p pt c)"
    if "pt \<in> set patterns" "CR \<notin> set c" for pt c
  proof -
    obtain pat tgt where e: "pt = (pat, tgt)" by (cases pt) auto
    have "\<forall>m\<in>set (finditer pat c). \<exists>s. match_at pat s = Some m"
      using finditer_sound by blast
    from fm [OF that(1) [unfolded e] this that(2)] show ?thesis
      by (simp add: rewrite_pattern_def e)
  qed
  have "set ps \<subseteq> set patterns \<Longrightarrow> CR \<notin> set c
        \<Longrightarrow> CR \<notin> set (fold (rewrite_pattern (os_path_relpath cwd) cwd p) ps c)" for ps c
  proof (induction ps arbitrary: c)
    case Nil
    then show ?case by simp
  next
    case (Cons pt ps)
    then show ?case using rp [of pt c] by simp
  qed
  then show ?thesis using c by (simp add: rewrite_text_def)
qed

lemma univ_nl_no_CR: "CR \<notin> set (univ_nl s)"
  by (induction s rule: univ_nl.induct) auto

lemma univ_nl_id: "CR \<notin> set s \<Longrightarrow> univ_nl s = s"
  by (induction s rule: univ_nl.induct) auto

section \<open>Whole-content replacement and replacement span by span\<close>

declare sub_spans.simps [simp del]

lemma sub_spans_skip:
  assumes "a \<notin> set u"
  shows "sub_spans ([a] # bp) f (u @ t) = u @ sub_spans ([a] # bp) f t"
  using assms by (induction u) (auto simp: sub_spans.simps)

lemma sub_spans_hit:
  assumes bp: "\<forall>cls\<in>set bp. a \<notin> set cls" and m: "match_at ([a] # bp) (x # xs) = Some m"
  shows "\<exists>mb rest. m = a # mb \<and> x = a \<and> xs = mb @ rest \<and> a \<notin> set mb
           \<and> sub_spans ([a] # bp) f (x # xs) = f m @ sub_spans ([a] # bp) f rest
           \<and> sub_spans ([a] # bp) f xs = mb @ sub_spans ([a] # bp) f rest"
proof -
  from m obtain mb where mb: "m = a # mb" "x = a" "match_at bp xs = Some mb"
    by (auto split: if_splits)
  have xs: "xs = mb @ drop (length mb) xs" using match_at_Some [OF mb(3)] by blast
  have a: "a \<notin> set mb" using match_at_avoid [OF mb(3) bp] .
  have 1: "sub_spans ([a] # bp) f (x # xs) = f m @ sub_spans ([a] # bp) f (drop (length mb) xs)"
    using m mb(1) by (simp add: sub_spans.simps(2) del: match_at.simps)
  have 2: "sub_spans ([a] # bp) f (mb @ drop (length mb) xs)
           = mb @ sub_spans ([a] # bp) f (drop (length mb) xs)"
    by (rule sub_spans_skip [OF a])
  show ?thesis using mb(1,2) xs a 1 2 by metis
qed

lemma sub_spans_miss:
  "match_at r (x # xs) = None \<Longrightarrow> sub_spans r f (x # xs) = x # sub_spans r f xs"
  by (simp add: sub_spans.simps(2) del: match_at.simps)

lemma sub_spans_replace:
  assumes bp: "\<forall>cls\<in>set bp. a \<notin> set cls"
    and ob: "a \<notin> set ob" and nb: "a \<notin> set nb"
    and nomatch: "\<And>t. match_at ([a] # bp) (a # nb @ t) = None"
    and lang: "\<And>t. match_at ([a] # bp) (a # ob @ t) = Some (a # ob)"
    and f: "f (a # ob) = a # nb"
  shows "sub_spans ([a] # bp) f (replace_str (a # ob) (a # nb) c) = sub_spans ([a] # bp) f c"
proof (induction c)
  case Nil
  then show ?case by (simp add: replace_str.simps)
next
  case (Cons x xs)
  let ?r = "[a] # bp" and ?old = "a # ob" and ?new = "a # nb"
  show ?case
  proof (cases "prefix ?old (x # xs)")
    case True
    then obtain rest where rest: "x # xs = ?old @ rest" by (auto simp: prefix_def)
    then have xs: "xs = ob @ rest" and x: "x = a" by auto
    have R1: "replace_str ?old ?new (x # xs) = ?new @ replace_str ?old ?new rest"
      unfolding rest by (rule replace_str_hit) simp
    have R2: "replace_str ?old ?new xs = ob @ replace_str ?old ?new rest"
      unfolding xs by (rule replace_str_skip) (use ob in auto)
    have "sub_spans ?r f (a # nb @ replace_str ?old ?new rest)
          = a # sub_spans ?r f (nb @ replace_str ?old ?new rest)"
      by (rule sub_spans_miss [OF nomatch])
    then have L: "sub_spans ?r f (replace_str ?old ?new (x # xs))
          = ?new @ sub_spans ?r f (replace_str ?old ?new rest)"
      unfolding R1 using sub_spans_skip [OF nb, of bp f] by simp
    have "sub_spans ?r f (ob @ replace_str ?old ?new rest) = sub_spans ?r f (ob @ rest)"
      using Cons.IH R2 by (simp add: xs)
    then have I: "sub_spans ?r f (replace_str ?old ?new rest) = sub_spans ?r f rest"
      using sub_spans_skip [OF ob, of bp f] by simp
    have M: "match_at ?r (x # xs) = Some ?old" using lang [of rest] rest by simp
    obtain mb rest' where h: "?old = a # mb" "xs = mb @ rest'"
      "sub_spans ?r f (x # xs) = f ?old @ sub_spans ?r f rest'"
      using sub_spans_hit [OF bp M, of f] by blast
    then have "rest' = rest" using xs by simp
    then show ?thesis using L I h(3) f by simp
  next
    case False
    have R1: "replace_str ?old ?new (x # xs) = x # replace_str ?old ?new xs"
      using False by (simp add: replace_str_miss)
    have M: "match_at ?r (x # replace_str ?old ?new xs) = match_at ?r (x # xs)"
      using match_at_replace [OF bp ob] by simp
    show ?thesis
    proof (cases "match_at ?r (x # xs)")
      case None
      then show ?thesis unfolding R1 using M Cons.IH by (simp add: sub_spans_miss del: match_at.simps)
    next
      case (Some m)
      obtain mb rest where h: "m = a # mb" "xs = mb @ rest" "a \<notin> set mb"
        "sub_spans ?r f (x # xs) = f m @ sub_spans ?r f rest"
        using sub_spans_hit [OF bp Some, of f] by blast
      have Rx: "replace_str ?old ?new xs = mb @ replace_str ?old ?new rest"
        unfolding h(2) by (rule replace_str_skip) (use h(3) in auto)
      have Some': "match_at ?r (x # replace_str ?old ?new xs) = Some m" using M Some by simp
      obtain mb' rest' where h': "m = a # mb'" "replace_str ?old ?new xs = mb' @ rest'"
        "sub_spans ?r f (x # replace_str ?old ?new xs) = f m @ sub_spans ?r f rest'"
        using sub_spans_hit [OF bp Some', of f] by blast
      have "rest' = replace_str ?old ?new rest" using h(1) h'(1,2) Rx by simp
      moreover have "sub_spans ?r f (mb @ replace_str ?old ?new rest) = sub_spans ?r f (mb @ rest)"
        using Cons.IH Rx by (simp add: h(2))
      then have "sub_spans ?r f (replace_str ?old ?new rest) = sub_spans ?r f rest"
        using sub_spans_skip [OF h(3), of bp f] by simp
      ultimately show ?thesis unfolding R1 using h(4) h'(3) by simp
    qed
  qed
qed

lemma sub_spans_none:
  assumes bp: "\<forall>cls\<in>set bp. a \<notin> set cls"
  shows "finditer ([a] # bp) c = [] \<Longrightarrow> sub_spans ([a] # bp) f c = c"
proof (induction c)
  case Nil
  then show ?case by (simp add: sub_spans.simps)
next
  case (Cons x xs)
  from Cons.prems have "match_at ([a] # bp) (x # xs) = None" "finditer ([a] # bp) xs = []"
    unfolding finditer_step [OF bp] by (auto split: option.splits simp del: match_at.simps)
  then show ?case using Cons.IH by (simp add: sub_spans_miss del: match_at.simps)
qed

lemma match_at_any_suffix:
  assumes "match_at r s = Some m"
  shows "match_at r (m @ t) = Some m"
  using match_at_Some [OF assms] match_at_lang by blast

lemma fold_rewrite_match_spans:
  assumes p: "src_file p" and pt: "(pat, tgt) \<in> set patterns"
  shows "\<forall>m\<in>set ms. \<exists>s. match_at pat s = Some m \<Longrightarrow> set (finditer pat c) \<subseteq> set ms
     \<Longrightarrow> fold (rewrite_match (os_path_relpath cwd) cwd p tgt) ms c
         = sub_spans pat (span_replacement (os_path_relpath cwd) cwd p tgt) c"
proof (induction ms arbitrary: c)
  case Nil
  obtain bp where bp: "pat = [CHR ''f''] # bp" "\<forall>cls\<in>set bp. CHR ''f'' \<notin> set cls"
    using pattern_marker [OF pt] by blast
  from Nil show ?case unfolding bp(1) by (simp add: sub_spans_none [OF bp(2)])
next
  case (Cons m ms)
  let ?f = "span_replacement (os_path_relpath cwd) cwd p tgt"
  let ?c = "rewrite_match (os_path_relpath cwd) cwd p tgt m c"
  obtain s where s: "match_at pat s = Some m" using Cons.prems(1) by auto
  obtain ob nb u t where f: "m = CHR ''f'' # ob" "CHR ''f'' \<notin> set ob" "CHR ''f'' \<notin> set nb"
    "nb = u @ CHR ''.'' # t" "length u = 5" "?f m = CHR ''f'' # nb"
    and rw: "\<And>c. rewrite_match (os_path_relpath cwd) cwd p tgt m c
                   = replace_str (CHR ''f'' # ob) (CHR ''f'' # nb) c"
    using rewrite_match_src [OF p pt s pt, of cwd] by blast
  obtain bp where bp: "pat = [CHR ''f''] # bp" "\<forall>cls\<in>set bp. CHR ''f'' \<notin> set cls"
    using pattern_marker [OF pt] by blast
  have nm: "match_at ([CHR ''f''] # bp) (CHR ''f'' # nb @ t') = None" for t'
    using pattern_rejects_new [OF pt f(4,5)] bp(1) by simp
  have lang: "match_at ([CHR ''f''] # bp) (CHR ''f'' # ob @ t') = Some (CHR ''f'' # ob)" for t'
    using match_at_any_suffix [OF s, of t'] f(1) bp(1) by simp
  have sub: "set (finditer pat ?c) \<subseteq> set (finditer pat c) - {m}"
    by (rule rewrite_match_matches [OF p pt s pt pt])
  then have "set (finditer pat ?c) \<subseteq> set ms" using Cons.prems(2) by auto
  then have "fold (rewrite_match (os_path_relpath cwd) cwd p tgt) ms ?c = sub_spans pat ?f ?c"
    using Cons.IH Cons.prems(1) by simp
  also have "\<dots> = sub_spans pat ?f c"
    unfolding rw bp(1)
    by (rule sub_spans_replace [OF bp(2) f(2,3) nm lang]) (use f(1,6) in simp)
  finally show ?case by simp
qed

lemma rewrite_pattern_spans:
  assumes "src_file p" "pt \<in> set patterns"
  shows "rewrite_pattern (os_path_relpath cwd) cwd p pt c
         = span_rewrite_pattern (os_path_relpath cwd) cwd p pt c"
proof -
  obtain pat tgt where e: "pt = (pat, tgt)" by (cases pt) auto
  have "\<forall>m\<in>set (finditer pat c). \<exists>s. match_at pat s = Some m"
    using finditer_sound by blast
  from fold_rewrite_match_spans [OF assms(1) assms(2) [unfolded e] this]
  show ?thesis by (simp add: rewrite_pattern_def span_rewrite_pattern_def e)
qed

section \<open>Further facts on replacement and on normalised paths\<close>

lemma prefix_avoid:
  "a \<notin> set ob \<Longrightarrow> prefix ob (u @ a # w) \<Longrightarrow> prefix ob u"
proof (induction ob arbitrary: u)
  case Nil
  then show ?case by simp
next
  case (Cons y ob)
  show ?case
  proof (cases u)
    case Nil
    then show ?thesis using Cons.prems by simp
  next
    case (Cons z u')
    have "y = z" "prefix ob (u' @ a # w)" using Cons.prems(2) Cons by simp_all
    moreover have "a \<notin> set ob" using Cons.prems(1) by simp
    ultimately show ?thesis using Cons.IH [of u'] Cons by simp
  qed
qed

lemma replace_str_distrib:
  assumes ob: "a \<notin> set ob"
  shows "replace_str (a # ob) new (u @ (a # ob) @ v)
         = replace_str (a # ob) new u @ new @ replace_str (a # ob) new v"
proof (induction u)
  case Nil
  show ?case using replace_str_hit [of "a # ob" new v] by (simp add: replace_str_Nil)
next
  case (Cons x u)
  let ?old = "a # ob"
  show ?case
  proof (cases "prefix ?old (x # u @ ?old @ v)")
    case True
    then have x: "x = a" and "prefix ob (u @ a # ob @ v)" by auto
    then have "prefix ob u" using prefix_avoid [OF ob] by blast
    then obtain rest where u: "u = ob @ rest" by (auto simp: prefix_def)
    have sk: "replace_str ?old new (ob @ t) = ob @ replace_str ?old new t" for t
      by (rule replace_str_skip) (use ob in auto)
    have "replace_str ?old new (ob @ rest @ ?old @ v)
          = replace_str ?old new (ob @ rest) @ new @ replace_str ?old new v"
      using Cons.IH by (simp add: u)
    then have I: "replace_str ?old new (rest @ ?old @ v)
          = replace_str ?old new rest @ new @ replace_str ?old new v"
      unfolding sk by simp
    have "replace_str ?old new (?old @ (rest @ ?old @ v))
          = new @ replace_str ?old new (rest @ ?old @ v)"
      by (rule replace_str_hit) simp
    moreover have "replace_str ?old new (?old @ rest) = new @ replace_str ?old new rest"
      by (rule replace_str_hit) simp
    ultimately show ?thesis using I by (simp add: x u)
  next
    case False
    then have "\<not> prefix ?old (x # u)"
      by (metis append_Cons prefix_prefix)
    then show ?thesis using False Cons.IH by (simp add: replace_str_miss)
  qed
qed

lemma replace_str_absent:
  assumes "old \<noteq> []"
  shows "\<not> sublist old s \<Longrightarrow> replace_str old new s = s"
proof (induction s)
  case Nil
  then show ?case using assms by (simp add: replace_str_Nil)
next
  case (Cons x s)
  have "\<not> prefix old (x # s)" using Cons.prems by (metis prefix_imp_sublist)
  moreover have "\<not> sublist old s" using Cons.prems by (metis sublist_Cons_right)
  ultimately show ?case using Cons.IH assms by (simp add: replace_str_miss)
qed

lemma finditer_complete:
  assumes bp: "\<forall>cls\<in>set bp. a \<notin> set cls" and m: "match_at ([a] # bp) (m @ v) = Some m"
  shows "m \<in> set (finditer ([a] # bp) (u @ m @ v))"
proof (induction u)
  case Nil
  obtain x xs where e: "m @ v = x # xs" using m by (cases "m @ v") auto
  show ?case using m finditer_step [OF bp, of x xs] unfolding e by simp
next
  case (Cons x u)
  then show ?case using finditer_step [OF bp, of x "u @ m @ v"] by simp
qed

lemma normpath_fold_ok:
  "list_all (\<lambda>s. s \<noteq> ''..'') acc \<Longrightarrow> list_all (\<lambda>s. s \<noteq> ''..'') (fold norm_step xs acc)"
proof (induction xs arbitrary: acc)
  case Nil
  then show ?case by simp
next
  case (Cons x xs)
  have "list_all (\<lambda>s. s \<noteq> ''..'') (butlast acc)"
    using Cons.prems by (metis (mono_tags, lifting) in_set_butlastD list_all_iff)
  then have "list_all (\<lambda>s. s \<noteq> ''..'') (norm_step x acc)"
    using Cons.prems by (auto simp: norm_step_def)
  then show ?case using Cons.IH by simp
qed

lemma normpath_fold_ok2:
  "list_all (\<lambda>s. s \<noteq> [] \<and> s \<noteq> ''.'') acc \<Longrightarrow> list_all (\<lambda>s. s \<noteq> [] \<and> s \<noteq> ''.'') (fold norm_step xs acc)"
proof (induction xs arbitrary: acc)
  case Nil
  then show ?case by simp
next
  case (Cons x xs)
  have "list_all (\<lambda>s. s \<noteq> [] \<and> s \<noteq> ''.'') (butlast acc)"
    using Cons.prems by (metis (mono_tags, lifting) in_set_butlastD list_all_iff)
  then have "list_all (\<lambda>s. s \<noteq> [] \<and> s \<noteq> ''.'') (norm_step x acc)"
    using Cons.prems by (auto simp: norm_step_def)
  then show ?case using Cons.IH by simp
qed

lemma fold_norm_plain:
  "list_all (\<lambda>s. s \<noteq> ''..'') ys \<Longrightarrow> list_all (\<lambda>s. s \<noteq> [] \<and> s \<noteq> ''.'') ys
   \<Longrightarrow> fold norm_step ys acc = acc @ ys"
  by (induction ys arbitrary: acc) (auto simp: norm_step_def)

lemma fold_norm_up:
  "fold norm_step (replicate (length ys) ''..'') (xs @ ys) = xs"
proof (induction ys rule: rev_induct)
  case Nil
  then show ?case by simp
next
  case (snoc y ys)
  have "norm_step ''..'' (xs @ ys @ [y]) = xs @ ys"
    by (simp add: norm_step_def butlast_append)
  then show ?case using snoc by simp
qed

lemma commonprefix_split:
  "\<exists>s' p'. xs = commonprefix xs ys @ s' \<and> ys = commonprefix xs ys @ p'"
  by (induction xs ys rule: commonprefix.induct) auto

lemma fold_norm_reaches:
  assumes okS: "list_all (\<lambda>s. s \<noteq> ''..'') S" "list_all (\<lambda>s. s \<noteq> [] \<and> s \<noteq> ''.'') S"
    and okP: "list_all (\<lambda>s. s \<noteq> ''..'') P" "list_all (\<lambda>s. s \<noteq> [] \<and> s \<noteq> ''.'') P"
  shows "fold norm_step
           (S @ replicate (length S - length (commonprefix S P)) ''..''
              @ drop (length (commonprefix S P)) P) [] = P"
proof -
  define C where "C = commonprefix S P"
  obtain s' p' where sp: "S = C @ s'" "P = C @ p'"
    unfolding C_def using commonprefix_split by blast
  have okp': "list_all (\<lambda>s. s \<noteq> ''..'') p'" "list_all (\<lambda>s. s \<noteq> [] \<and> s \<noteq> ''.'') p'"
    using okP unfolding sp(2) by simp_all
  have 1: "fold norm_step S [] = S" using fold_norm_plain [OF okS, of "[]"] by simp
  have 2: "fold norm_step (replicate (length s') ''..'') (C @ s') = C" by (rule fold_norm_up)
  have 3: "fold norm_step p' C = C @ p'" by (rule fold_norm_plain [OF okp'])
  have "fold norm_step (S @ replicate (length s') ''..'' @ p') [] = P"
    using 1 2 3 by (simp add: sp)
  moreover have "length S - length C = length s'" "drop (length C) P = p'"
    by (simp_all add: sp)
  ultimately show ?thesis unfolding C_def [symmetric] by simp
qed

lemma relpath_parts_reaches:
  "normpath_abs (abspath cwd start @ relpath_parts cwd path start) = abspath cwd path"
proof -
  have ok: "list_all (\<lambda>s. s \<noteq> ''..'') (abspath cwd q)"
    "list_all (\<lambda>s. s \<noteq> [] \<and> s \<noteq> ''.'') (abspath cwd q)" for q
    unfolding abspath_def normpath_abs_def
    using normpath_fold_ok [of "[]"] normpath_fold_ok2 [of "[]"] by simp_all
  show ?thesis unfolding normpath_abs_def relpath_parts_def Let_def
    by (rule fold_norm_reaches [OF ok ok])
qed

lemma replace_str_removes:
  assumes "a \<noteq> b"
  shows "a \<notin> set (replace_str [a] [b] s)"
proof (induction s)
  case Nil
  then show ?case by (simp add: replace_str.simps)
next
  case (Cons x s)
  then show ?case using assms by (auto simp: replace_str.simps(2))
qed

section \<open>An occurrence of a matched text inside a larger text\<close>

lemma sub_spans_Nil: "sub_spans (cls # r) f [] = []"
  by (simp add: sub_spans.simps)

lemma sub_spans_block:
  assumes bp: "\<forall>cls\<in>set bp. a \<notin> set cls" and wb: "a \<notin> set wb"
    and blk: "\<And>t. sub_spans ([a] # bp) f (a # wb @ t) = g @ sub_spans ([a] # bp) f t"
  shows "sub_spans ([a] # bp) f (u @ a # wb @ v)
         = sub_spans ([a] # bp) f u @ g @ sub_spans ([a] # bp) f v"
proof (induction u)
  case Nil
  show ?case using blk [of v] by (simp add: sub_spans_Nil)
next
  case (Cons x u)
  let ?r = "[a] # bp"
  show ?case
  proof (cases "match_at ?r (x # u @ a # wb @ v)")
    case None
    have "match_at ?r (x # u) = None"
    proof (rule ccontr)
      assume "match_at ?r (x # u) \<noteq> None"
      then obtain m where "match_at ?r (x # u) = Some m" by auto
      then have "match_at ?r (m @ drop (length m) (x # u) @ a # wb @ v) = Some m"
        by (rule match_at_any_suffix)
      moreover have "x # u = m @ drop (length m) (x # u)"
        using match_at_Some [OF \<open>match_at ?r (x # u) = Some m\<close>] by blast
      ultimately have "match_at ?r ((x # u) @ a # wb @ v) = Some m"
        by (metis append.assoc)
      then show False using None by simp
    qed
    then have "sub_spans ?r f (x # u) = x # sub_spans ?r f u" by (rule sub_spans_miss)
    moreover have "sub_spans ?r f (x # u @ a # wb @ v) = x # sub_spans ?r f (u @ a # wb @ v)"
      by (rule sub_spans_miss [OF None])
    ultimately show ?thesis using Cons.IH by simp
  next
    case (Some m)
    obtain mb rest where h: "m = a # mb" "x = a" "u @ a # wb @ v = mb @ rest" "a \<notin> set mb"
      "sub_spans ?r f (x # u @ a # wb @ v) = f m @ sub_spans ?r f rest"
      using sub_spans_hit [OF bp Some, of f] by blast
    have "prefix mb (u @ a # wb @ v)" using h(3) by simp
    then have "prefix mb u" using prefix_avoid [OF h(4)] by blast
    then obtain u' where u: "u = mb @ u'" by (auto simp: prefix_def)
    then have rest: "rest = u' @ a # wb @ v" using h(3) by simp
    have "match_at ?r (m @ u') = Some m" by (rule match_at_any_suffix [OF Some])
    then have M: "match_at ?r (x # u) = Some m" using h(1,2) u by simp
    obtain mb2 rest2 where h2: "m = a # mb2" "u = mb2 @ rest2"
      "sub_spans ?r f (x # u) = f m @ sub_spans ?r f rest2"
      using sub_spans_hit [OF bp M, of f] by blast
    have r2: "rest2 = u'" using h(1) h2(1,2) u by simp
    have "sub_spans ?r f (mb @ (u' @ a # wb @ v))
          = sub_spans ?r f (mb @ u') @ g @ sub_spans ?r f v"
      using Cons.IH by (simp add: u)
    then have "sub_spans ?r f (u' @ a # wb @ v) = sub_spans ?r f u' @ g @ sub_spans ?r f v"
      unfolding sub_spans_skip [OF h(4)] by simp
    then show ?thesis using h(5) h2(3) rest r2 by simp
  qed
qed

lemma pattern_match_body:
  assumes "(pat, tgt) \<in> set patterns" "match_at pat s = Some m"
  shows "\<exists>q body t. pat = lit ''from '' @ [[dq, sq]] @ lit ''@/'' @ lit body
           \<and> m = ''from '' @ [q] @ ''@/'' @ body \<and> s = m @ t
           \<and> body \<in> {''components/'', ''lib/'', ''context/'', ''types''}"
proof -
  obtain body where pat: "pat = lit ''from '' @ [[dq, sq]] @ lit ''@/'' @ lit body"
    and body: "body \<in> {''components/'', ''lib/'', ''context/'', ''types''}"
    using patterns_form [OF assms(1)] by blast
  from assms(2) obtain t1 m1 where 1: "s = ''from '' @ t1" "match_at ([[dq, sq]] @ lit ''@/'' @ lit body) t1 = Some m1" "m = ''from '' @ m1"
    unfolding pat match_at_lit by blast
  from 1(2) obtain q t2 m2 where 2: "t1 = q # t2" "match_at (lit ''@/'' @ lit body) t2 = Some m2" "m1 = q # m2"
    by (cases t1) (auto split: if_splits)
  from 2(2) obtain t3 m3 where 3: "t2 = ''@/'' @ t3" "match_at (lit body) t3 = Some m3" "m2 = ''@/'' @ m3"
    unfolding match_at_lit by blast
  from 3(2) obtain t4 where 4: "t3 = body @ t4" "m3 = body"
    unfolding match_at_lit_end by (auto simp: prefix_def)
  show ?thesis using pat 1 2 3 4 body by auto
qed

lemma body_unique:
  assumes "body \<in> {''components/'', ''lib/'', ''context/'', ''types''}"
    "body' \<in> {''components/'', ''lib/'', ''context/'', ''types''}"
    "body @ t = body' @ t'"
  shows "body = body'"
  using assms by auto

lemma other_pattern_rejects:
  assumes "(pat, tgt) \<in> set patterns" "(pat', tgt') \<in> set patterns" "pat' \<noteq> pat"
    "match_at pat s = Some m"
  shows "match_at pat' (m @ t) = None"
proof (rule ccontr)
  assume "match_at pat' (m @ t) \<noteq> None"
  then obtain m' where m': "match_at pat' (m @ t) = Some m'" by auto
  obtain q body t1 where a: "pat = lit ''from '' @ [[dq, sq]] @ lit ''@/'' @ lit body"
    "m = ''from '' @ [q] @ ''@/'' @ body"
    "body \<in> {''components/'', ''lib/'', ''context/'', ''types''}"
    using pattern_match_body [OF assms(1,4)] by blast
  obtain q' body' t' where b: "pat' = lit ''from '' @ [[dq, sq]] @ lit ''@/'' @ lit body'"
    "m' = ''from '' @ [q'] @ ''@/'' @ body'" "m @ t = m' @ t'"
    "body' \<in> {''components/'', ''lib/'', ''context/'', ''types''}"
    using pattern_match_body [OF assms(2) m'] by blast
  have "body @ t = body' @ t'" using a(2) b(2,3) by simp
  then have "body = body'" by (rule body_unique [OF a(3) b(4)])
  then show False using a(1) b(1) assms(3) by simp
qed

lemma patterns_fst_inj:
  "pt \<in> set patterns \<Longrightarrow> pt' \<in> set patterns \<Longrightarrow> fst pt = fst pt' \<Longrightarrow> pt = pt'"
  by (auto simp: patterns_def lit_def)

lemma rewrite_pattern_matched_block:
  assumes p: "src_file p" and pt: "(pat, tgt) \<in> set patterns" and m: "match_at pat s = Some m"
  shows "rewrite_pattern (os_path_relpath cwd) cwd p (pat, tgt) (u @ m @ v)
         = rewrite_pattern (os_path_relpath cwd) cwd p (pat, tgt) u
           @ span_replacement (os_path_relpath cwd) cwd p tgt m
           @ rewrite_pattern (os_path_relpath cwd) cwd p (pat, tgt) v"
proof -
  let ?f = "span_replacement (os_path_relpath cwd) cwd p tgt"
  obtain bp where bp: "pat = [CHR ''f''] # bp" "\<forall>cls\<in>set bp. CHR ''f'' \<notin> set cls"
    using pattern_marker [OF pt] by blast
  obtain ob nb where f: "m = CHR ''f'' # ob" "CHR ''f'' \<notin> set ob"
    using rewrite_match_src [OF p pt m pt, of cwd] by blast
  have blk: "sub_spans ([CHR ''f''] # bp) ?f (CHR ''f'' # ob @ t)
             = ?f m @ sub_spans ([CHR ''f''] # bp) ?f t" for t
  proof -
    have M: "match_at ([CHR ''f''] # bp) (CHR ''f'' # ob @ t) = Some m"
      using match_at_any_suffix [OF m, of t] f(1) bp(1) by simp
    obtain mb rest where h: "m = CHR ''f'' # mb" "ob @ t = mb @ rest"
      "sub_spans ([CHR ''f''] # bp) ?f (CHR ''f'' # ob @ t)
         = ?f m @ sub_spans ([CHR ''f''] # bp) ?f rest"
      using sub_spans_hit [OF bp(2) M, of ?f] by blast
    have "rest = t" using h(1,2) f(1) by simp
    then show ?thesis using h(3) by simp
  qed
  have "sub_spans ([CHR ''f''] # bp) ?f (u @ CHR ''f'' # ob @ v)
        = sub_spans ([CHR ''f''] # bp) ?f u @ ?f m @ sub_spans ([CHR ''f''] # bp) ?f v"
    by (rule sub_spans_block [OF bp(2) f(2) blk])
  then show ?thesis
    unfolding rewrite_pattern_spans [OF p pt] span_rewrite_pattern_def
    by (simp add: bp(1) f(1))
qed

lemma rewrite_pattern_unmatched_block:
  assumes p: "src_file p" and pt: "(pat, tgt) \<in> set patterns"
    and wb: "CHR ''f'' \<notin> set wb"
    and rej: "\<And>t. match_at pat (CHR ''f'' # wb @ t) = None"
  shows "rewrite_pattern (os_path_relpath cwd) cwd p (pat, tgt) (u @ (CHR ''f'' # wb) @ v)
         = rewrite_pattern (os_path_relpath cwd) cwd p (pat, tgt) u
           @ (CHR ''f'' # wb)
           @ rewrite_pattern (os_path_relpath cwd) cwd p (pat, tgt) v"
proof -
  let ?f = "span_replacement (os_path_relpath cwd) cwd p tgt"
  obtain bp where bp: "pat = [CHR ''f''] # bp" "\<forall>cls\<in>set bp. CHR ''f'' \<notin> set cls"
    using pattern_marker [OF pt] by blast
  have blk: "sub_spans ([CHR ''f''] # bp) ?f (CHR ''f'' # wb @ t)
             = (CHR ''f'' # wb) @ sub_spans ([CHR ''f''] # bp) ?f t" for t
  proof -
    have "match_at ([CHR ''f''] # bp) (CHR ''f'' # wb @ t) = None" using rej [of t] bp(1) by simp
    then have "sub_spans ([CHR ''f''] # bp) ?f (CHR ''f'' # wb @ t)
               = CHR ''f'' # sub_spans ([CHR ''f''] # bp) ?f (wb @ t)"
      by (rule sub_spans_miss)
    then show ?thesis using sub_spans_skip [OF wb, of bp ?f t] by simp
  qed
  have "sub_spans ([CHR ''f''] # bp) ?f (u @ CHR ''f'' # wb @ v)
        = sub_spans ([CHR ''f''] # bp) ?f u @ (CHR ''f'' # wb) @ sub_spans ([CHR ''f''] # bp) ?f v"
    by (rule sub_spans_block [OF bp(2) wb blk])
  then show ?thesis
    unfolding rewrite_pattern_spans [OF p pt] span_rewrite_pattern_def
    by (simp add: bp(1))
qed

lemma fold_rewrite_pattern_new_block:
  assumes p: "src_file p" and nb: "CHR ''f'' \<notin> set nb" "nb = u0 @ CHR ''.'' # t0" "length u0 = 5"
  shows "set ps \<subseteq> set patterns \<Longrightarrow>
         fold (rewrite_pattern (os_path_relpath cwd) cwd p) ps (u @ (CHR ''f'' # nb) @ v)
         = fold (rewrite_pattern (os_path_relpath cwd) cwd p) ps u
           @ (CHR ''f'' # nb)
           @ fold (rewrite_pattern (os_path_relpath cwd) cwd p) ps v"
proof (induction ps arbitrary: u v)
  case Nil
  then show ?case by simp
next
  case (Cons pt ps)
  obtain pat tgt where e: "pt = (pat, tgt)" by (cases pt) auto
  have pt: "(pat, tgt) \<in> set patterns" using Cons.prems e by simp
  have rej: "match_at pat (CHR ''f'' # nb @ t) = None" for t
    by (rule pattern_rejects_new [OF pt nb(2,3)])
  have "rewrite_pattern (os_path_relpath cwd) cwd p pt (u @ (CHR ''f'' # nb) @ v)
        = rewrite_pattern (os_path_relpath cwd) cwd p pt u @ (CHR ''f'' # nb)
          @ rewrite_pattern (os_path_relpath cwd) cwd p pt v"
    unfolding e by (rule rewrite_pattern_unmatched_block [OF p pt nb(1) rej])
  then show ?case using Cons.IH Cons.prems by simp
qed

lemma fold_rewrite_pattern_matched_block:
  assumes p: "src_file p" and pt: "(pat, tgt) \<in> set patterns" and m: "match_at pat s = Some m"
  shows "set ps \<subseteq> set patterns \<Longrightarrow>
         fold (rewrite_pattern (os_path_relpath cwd) cwd p) ps (u @ m @ v)
         = fold (rewrite_pattern (os_path_relpath cwd) cwd p) ps u
           @ (if (pat, tgt) \<in> set ps then span_replacement (os_path_relpath cwd) cwd p tgt m else m)
           @ fold (rewrite_pattern (os_path_relpath cwd) cwd p) ps v"
proof (induction ps arbitrary: u v)
  case Nil
  then show ?case by simp
next
  case (Cons pt' ps)
  let ?rp = "rewrite_pattern (os_path_relpath cwd) cwd p"
  let ?N = "span_replacement (os_path_relpath cwd) cwd p tgt m"
  have ps: "set ps \<subseteq> set patterns" and pt': "pt' \<in> set patterns" using Cons.prems by auto
  obtain ob nb u0 t0 where f: "m = CHR ''f'' # ob" "CHR ''f'' \<notin> set ob" "CHR ''f'' \<notin> set nb"
    "nb = u0 @ CHR ''.'' # t0" "length u0 = 5" "?N = CHR ''f'' # nb"
    using rewrite_match_src [OF p pt m pt, of cwd] by blast
  show ?case
  proof (cases "pt' = (pat, tgt)")
    case True
    have "?rp pt' (u @ m @ v) = ?rp pt' u @ ?N @ ?rp pt' v"
      unfolding True by (rule rewrite_pattern_matched_block [OF p pt m])
    moreover have "fold ?rp ps (?rp pt' u @ (CHR ''f'' # nb) @ ?rp pt' v)
          = fold ?rp ps (?rp pt' u) @ (CHR ''f'' # nb) @ fold ?rp ps (?rp pt' v)"
      by (rule fold_rewrite_pattern_new_block [OF p f(3,4,5) ps])
    ultimately show ?thesis using True f(6) by simp
  next
    case False
    obtain pat' tgt' where e: "pt' = (pat', tgt')" by (cases pt') auto
    have ne: "pat' \<noteq> pat" using patterns_fst_inj [OF pt' pt] False e by auto
    have rej: "match_at pat' (CHR ''f'' # ob @ t) = None" for t
      using other_pattern_rejects [OF pt pt' [unfolded e] ne m, of t] f(1) by simp
    have "?rp (pat', tgt') (u @ (CHR ''f'' # ob) @ v)
          = ?rp (pat', tgt') u @ (CHR ''f'' # ob) @ ?rp (pat', tgt') v"
      by (rule rewrite_pattern_unmatched_block [OF p pt' [unfolded e] f(2) rej])
    then have "?rp pt' (u @ m @ v) = ?rp pt' u @ m @ ?rp pt' v" using e f(1) by simp
    then show ?thesis using Cons.IH [OF ps, of "?rp pt' u" "?rp pt' v"] False by simp
  qed
qed

lemma rewrite_text_matched_block:
  assumes "src_file p" "(pat, tgt) \<in> set patterns" "match_at pat s = Some m"
  shows "rewrite_text (os_path_relpath cwd) cwd p (u @ m @ v)
         = rewrite_text (os_path_relpath cwd) cwd p u
           @ span_replacement (os_path_relpath cwd) cwd p tgt m
           @ rewrite_text (os_path_relpath cwd) cwd p v"
  unfolding rewrite_text_def
  using fold_rewrite_pattern_matched_block [OF assms, of patterns cwd u v] assms(2) by simp

section \<open>The loop over the files\<close>

lemma fix_imports_text:
  "files w p = Some (TextFile raw) \<Longrightarrow> unwritable w p = None \<Longrightarrow>
   fix_imports relpath cwd p w =
     (Inr True, w\<lparr>opened := opened w @ [p, p],
                  files := (files w)(p \<mapsto> TextFile (rewrite_text relpath cwd p (univ_nl raw)))\<rparr>)"
  by (simp add: fix_imports_def Let_def)

lemma fix_imports_fails:
  "\<not> (\<exists>raw. files w p = Some (TextFile raw) \<and> unwritable w p = None) \<Longrightarrow>
   \<exists>e ps. fix_imports relpath cwd p w = (Inl e, w\<lparr>opened := opened w @ ps\<rparr>)
          \<and> set ps \<subseteq> {p}"
proof (cases "\<exists>raw. files w p = Some (TextFile raw)")
  case True
  assume "\<not> (\<exists>raw. files w p = Some (TextFile raw) \<and> unwritable w p = None)"
  with True obtain raw e where "files w p = Some (TextFile raw)" "unwritable w p = Some e"
    by auto
  then have "fix_imports relpath cwd p w = (Inl e, w\<lparr>opened := opened w @ [p, p]\<rparr>)"
    by (simp add: fix_imports_def Let_def)
  then show ?thesis by (intro exI [of _ e] exI [of _ "[p, p]"]) simp
next
  case False
  then have "\<exists>e. fix_imports relpath cwd p w = (Inl e, w\<lparr>opened := opened w @ [p]\<rparr>)"
    by (auto simp: fix_imports_def Let_def split: option.splits entry.splits)
  then obtain e where "fix_imports relpath cwd p w = (Inl e, w\<lparr>opened := opened w @ [p]\<rparr>)"
    by blast
  then show ?thesis by (intro exI [of _ e] exI [of _ "[p]"]) simp
qed

lemma fix_imports_never_False: "fst (fix_imports relpath cwd p w) \<noteq> Inr False"
  by (auto simp: fix_imports_def Let_def split: option.splits entry.splits)

lemma run_loop_text:
  "files w p = Some (TextFile raw) \<Longrightarrow> unwritable w p = None \<Longrightarrow>
   run_loop relpath cwd (p # rest) n w =
     run_loop relpath cwd rest (n + 1)
       (w\<lparr>opened := opened w @ [p, p],
          files := (files w)(p \<mapsto> TextFile (rewrite_text relpath cwd p (univ_nl raw))),
          stdout := stdout w @ [Fixed p]\<rparr>)"
  by (simp add: fix_imports_text)

lemma run_loop_fails:
  "\<not> (\<exists>raw. files w p = Some (TextFile raw) \<and> unwritable w p = None) \<Longrightarrow>
   \<exists>e ps. run_loop relpath cwd (p # rest) n w = (Inl e, w\<lparr>opened := opened w @ ps\<rparr>)
          \<and> set ps \<subseteq> {p}"
  using fix_imports_fails [of w p relpath cwd] by auto

lemma run_loop_files:
  "q \<notin> set ps \<Longrightarrow> files (snd (run_loop relpath cwd ps n w)) q = files w q"
proof (induction ps arbitrary: n w)
  case Nil
  then show ?case by simp
next
  case (Cons p ps)
  show ?case
  proof (cases "\<exists>raw. files w p = Some (TextFile raw) \<and> unwritable w p = None")
    case True
    then obtain raw where "files w p = Some (TextFile raw)" "unwritable w p = None" by blast
    from run_loop_text [OF this] Cons show ?thesis by simp
  next
    case False
    then obtain e os where "run_loop relpath cwd (p # ps) n w = (Inl e, w\<lparr>opened := opened w @ os\<rparr>)"
      using run_loop_fails [of w p relpath cwd ps n] by auto
    then show ?thesis by simp
  qed
qed

lemma run_loop_opened:
  "set (opened (snd (run_loop relpath cwd ps n w))) \<subseteq> set (opened w) \<union> set ps"
proof (induction ps arbitrary: n w)
  case Nil
  then show ?case by simp
next
  case (Cons p ps)
  show ?case
  proof (cases "\<exists>raw. files w p = Some (TextFile raw) \<and> unwritable w p = None")
    case True
    then obtain raw where r: "files w p = Some (TextFile raw)" "unwritable w p = None" by blast
    show ?thesis unfolding run_loop_text [OF r]
      using Cons [of "n + 1" "w\<lparr>opened := opened w @ [p, p],
          files := (files w)(p \<mapsto> TextFile (rewrite_text relpath cwd p (univ_nl raw))),
          stdout := stdout w @ [Fixed p]\<rparr>"] by auto
  next
    case False
    then obtain e os where "run_loop relpath cwd (p # ps) n w = (Inl e, w\<lparr>opened := opened w @ os\<rparr>)"
      "set os \<subseteq> {p}"
      using run_loop_fails [of w p relpath cwd ps n] by auto
    then show ?thesis by auto
  qed
qed

lemma run_loop_success:
  "fst (run_loop relpath cwd ps n w) = Inr m \<Longrightarrow>
   m = n + length ps
   \<and> stdout (snd (run_loop relpath cwd ps n w)) = stdout w @ map Fixed ps
   \<and> opened (snd (run_loop relpath cwd ps n w)) = opened w @ concat (map (\<lambda>p. [p, p]) ps)"
proof (induction ps arbitrary: n w)
  case Nil
  then show ?case by simp
next
  case (Cons p ps)
  show ?case
  proof (cases "\<exists>raw. files w p = Some (TextFile raw) \<and> unwritable w p = None")
    case True
    then obtain raw where r: "files w p = Some (TextFile raw)" "unwritable w p = None" by blast
    let ?w = "w\<lparr>opened := opened w @ [p, p],
          files := (files w)(p \<mapsto> TextFile (rewrite_text relpath cwd p (univ_nl raw))),
          stdout := stdout w @ [Fixed p]\<rparr>"
    have "fst (run_loop relpath cwd ps (n + 1) ?w) = Inr m"
      using Cons.prems unfolding run_loop_text [OF r] .
    from Cons.IH [OF this] show ?thesis unfolding run_loop_text [OF r] by simp
  next
    case False
    then obtain e os where "run_loop relpath cwd (p # ps) n w = (Inl e, w\<lparr>opened := opened w @ os\<rparr>)"
      using run_loop_fails [of w p relpath cwd ps n] by auto
    then show ?thesis using Cons.prems by simp
  qed
qed

lemma fold_rewrite_pattern_relpath_fails:
  "list_all (\<lambda>pt. isl (relpath (joinpath (absolute cwd (Rel [''src''])) (snd pt)) (parent p))) ps
   \<Longrightarrow> fold (rewrite_pattern relpath cwd p) ps c = c"
proof (induction ps arbitrary: c)
  case Nil
  then show ?case by simp
next
  case (Cons pt ps)
  then obtain e where
    "relpath (joinpath (absolute cwd (Rel [''src''])) (snd pt)) (parent p) = Inl e"
    by (auto simp: isl_def)
  then have m: "rewrite_match relpath cwd p (snd pt) m c' = c'" for m c'
    by (simp add: get_relative_path_def rewrite_match_def)
  have "fold (rewrite_match relpath cwd p (snd pt)) ms c' = c'" for ms c'
    by (induction ms) (simp_all add: m)
  then have "rewrite_pattern relpath cwd p pt c = c" by (simp add: rewrite_pattern_def)
  then show ?case using Cons by simp
qed

lemma run_cases:
  "(\<exists>e. run relpath cwd w = (Inl e, snd (run_loop relpath cwd (rglob w) 0 w))
        \<and> fst (run_loop relpath cwd (rglob w) 0 w) = Inl e)
   \<or> (\<exists>n. run relpath cwd w = (Inr n, (snd (run_loop relpath cwd (rglob w) 0 w))
              \<lparr>stdout := stdout (snd (run_loop relpath cwd (rglob w) 0 w)) @ [Total n]\<rparr>)
        \<and> fst (run_loop relpath cwd (rglob w) 0 w) = Inr n)"
  by (cases "run_loop relpath cwd (rglob w) 0 w"; cases "fst (run_loop relpath cwd (rglob w) 0 w)")
     (auto simp: run_def)

section \<open>The rewritten import keeps the alias directory twice\<close>

text \<open>
  C1. A file at \<^verbatim>\<open>src/components/x.ts\<close> holding \<^verbatim>\<open>from "@/lib/foo"\<close> should hold
  \<^verbatim>\<open>from "../lib/foo"\<close> afterwards. The matched text is \<^verbatim>\<open>from "@/lib/\<close>, and only its
  \<^verbatim>\<open>@/\<close> is replaced by the relative path \<^verbatim>\<open>../lib\<close> and a slash, so the directory
  name that follows the alias stays: the file holds \<^verbatim>\<open>from "../lib/lib/foo"\<close>, and the
  expected text does not occur in it.
\<close>

theorem fix_imports_lib_from_components:
  "rewrite_text (os_path_relpath [''home'', ''proj'']) [''home'', ''proj'']
     (Rel [''src'', ''components'', ''x.ts'']) (''from '' @ [dq] @ ''@/lib/foo'' @ [dq])
   = ''from '' @ [dq] @ ''../lib/lib/foo'' @ [dq]
   \<and> \<not> contains_str (''from '' @ [dq] @ ''../lib/foo'' @ [dq])
        (rewrite_text (os_path_relpath [''home'', ''proj'']) [''home'', ''proj'']
          (Rel [''src'', ''components'', ''x.ts'']) (''from '' @ [dq] @ ''@/lib/foo'' @ [dq]))"
  by code_simp

text \<open>
  C2. A file with one \<^verbatim>\<open>@/lib/\<close> import and one \<^verbatim>\<open>@/types\<close> import should get
  \<^verbatim>\<open>../lib/\<close> and \<^verbatim>\<open>../types\<close>. Both are rewritten, and both keep the directory name a
  second time: \<^verbatim>\<open>../lib/lib/a\<close> and \<^verbatim>\<open>../types/types\<close>.
\<close>

theorem fix_imports_two_aliases:
  "rewrite_text (os_path_relpath [''home'', ''proj'']) [''home'', ''proj'']
     (Rel [''src'', ''components'', ''x.ts''])
     (''from '' @ [dq] @ ''@/lib/a'' @ [dq] @ [LF] @ ''from '' @ [dq] @ ''@/types'' @ [dq])
   = ''from '' @ [dq] @ ''../lib/lib/a'' @ [dq] @ [LF] @ ''from '' @ [dq] @ ''../types/types'' @ [dq]
   \<and> \<not> contains_str (''from '' @ [dq] @ ''../lib/a'' @ [dq])
        (rewrite_text (os_path_relpath [''home'', ''proj'']) [''home'', ''proj'']
          (Rel [''src'', ''components'', ''x.ts''])
          (''from '' @ [dq] @ ''@/lib/a'' @ [dq] @ [LF] @ ''from '' @ [dq] @ ''@/types'' @ [dq]))
   \<and> \<not> contains_str (''from '' @ [dq] @ ''../types'' @ [dq])
        (rewrite_text (os_path_relpath [''home'', ''proj'']) [''home'', ''proj'']
          (Rel [''src'', ''components'', ''x.ts''])
          (''from '' @ [dq] @ ''@/lib/a'' @ [dq] @ [LF] @ ''from '' @ [dq] @ ''@/types'' @ [dq]))"
  by code_simp

text \<open>
  C3. For a file directly in \<^verbatim>\<open>src\<close> the alias \<^verbatim>\<open>@/lib/\<close> should become \<^verbatim>\<open>./lib/\<close>.
  The text put in place of \<^verbatim>\<open>@/\<close> is \<^verbatim>\<open>./lib/\<close>, so the alias \<^verbatim>\<open>@/lib/\<close> becomes
  \<^verbatim>\<open>./lib/lib/\<close>: the file holds \<^verbatim>\<open>from "./lib/lib/foo"\<close> and not \<^verbatim>\<open>from "./lib/foo"\<close>.
\<close>

theorem fix_imports_lib_from_src:
  "rewrite_text (os_path_relpath [''home'', ''proj'']) [''home'', ''proj'']
     (Rel [''src'', ''x.ts'']) (''from '' @ [dq] @ ''@/lib/foo'' @ [dq])
   = ''from '' @ [dq] @ ''./lib/lib/foo'' @ [dq]
   \<and> \<not> contains_str (''from '' @ [dq] @ ''./lib/foo'' @ [dq])
        (rewrite_text (os_path_relpath [''home'', ''proj'']) [''home'', ''proj'']
          (Rel [''src'', ''x.ts'']) (''from '' @ [dq] @ ''@/lib/foo'' @ [dq]))"
  by code_simp

section \<open>Running the rewriter twice\<close>

text \<open>
  C4. Rewriting is idempotent. For a file below \<^verbatim>\<open>src\<close>, which is what the loop over
  \<^verbatim>\<open>rglob\<close> passes to \<^verbatim>\<open>fix_imports\<close>, no pattern matches the rewritten text any more, so
  rewriting the rewritten text changes nothing, and a second call of \<^verbatim>\<open>fix_imports\<close>
  leaves every file as the first call left it. The working directory and the content of the
  file are arbitrary; a path that is not a readable text file is not changed by either call.
\<close>

theorem fix_imports_idempotent:
  assumes "src_file p"
  shows "alias_matches (rewrite_text (os_path_relpath cwd) cwd p c) = []
       \<and> rewrite_text (os_path_relpath cwd) cwd p (rewrite_text (os_path_relpath cwd) cwd p c)
           = rewrite_text (os_path_relpath cwd) cwd p c
       \<and> files (snd (fix_imports (os_path_relpath cwd) cwd p
                       (snd (fix_imports (os_path_relpath cwd) cwd p w))))
           = files (snd (fix_imports (os_path_relpath cwd) cwd p w))"
proof -
  let ?R = "os_path_relpath cwd"
  have clean: "alias_matches (rewrite_text ?R cwd p c) = []" for c
    by (rule rewrite_text_clean [OF assms])
  have idem: "rewrite_text ?R cwd p (rewrite_text ?R cwd p c) = rewrite_text ?R cwd p c" for c
    by (rule rewrite_text_id [OF clean])
  have fl: "files (snd (fix_imports ?R cwd p (snd (fix_imports ?R cwd p w))))
              = files (snd (fix_imports ?R cwd p w))"
  proof (cases "\<exists>raw. files w p = Some (TextFile raw) \<and> unwritable w p = None")
    case True
    then obtain raw where r: "files w p = Some (TextFile raw)" "unwritable w p = None" by blast
    let ?c = "rewrite_text ?R cwd p (univ_nl raw)"
    have "CR \<notin> set ?c" by (rule rewrite_text_no_CR [OF assms univ_nl_no_CR])
    then have nl: "univ_nl ?c = ?c" by (rule univ_nl_id)
    let ?w = "w\<lparr>opened := opened w @ [p, p], files := (files w)(p \<mapsto> TextFile ?c)\<rparr>"
    have 1: "fix_imports ?R cwd p w = (Inr True, ?w)" by (rule fix_imports_text [OF r])
    have "files ?w p = Some (TextFile ?c)" "unwritable ?w p = None" using r(2) by simp_all
    from fix_imports_text [OF this, of ?R cwd] show ?thesis unfolding 1
      by (simp add: nl idem)
  next
    case False
    then obtain e os where 1: "fix_imports ?R cwd p w = (Inl e, w\<lparr>opened := opened w @ os\<rparr>)"
      using fix_imports_fails [of w p ?R cwd] by auto
    let ?w = "w\<lparr>opened := opened w @ os\<rparr>"
    have "\<not> (\<exists>raw. files ?w p = Some (TextFile raw) \<and> unwritable ?w p = None)"
      using False by simp
    then obtain e' os' where "fix_imports ?R cwd p ?w = (Inl e', ?w\<lparr>opened := opened ?w @ os'\<rparr>)"
      using fix_imports_fails [of ?w p ?R cwd] by auto
    then show ?thesis unfolding 1 by simp
  qed
  show ?thesis using clean idem fl by blast
qed

theorem fix_imports_idempotent_witness:
  "src_file (Rel [''src'', ''components'', ''x.ts''])
   \<and> rewrite_text (os_path_relpath [''home'', ''proj'']) [''home'', ''proj''] (Rel [''src'', ''components'', ''x.ts''])
       (rewrite_text (os_path_relpath [''home'', ''proj'']) [''home'', ''proj''] (Rel [''src'', ''components'', ''x.ts''])
          (''from '' @ [dq] @ ''@/lib/foo'' @ [dq]))
     = ''from '' @ [dq] @ ''../lib/lib/foo'' @ [dq]"
proof -
  have h: "src_file (Rel [''src'', ''components'', ''x.ts''])" by (simp add: proper_name_def)
  have e: "rewrite_text (os_path_relpath [''home'', ''proj'']) [''home'', ''proj''] (Rel [''src'', ''components'', ''x.ts''])
          (''from '' @ [dq] @ ''@/lib/foo'' @ [dq]) = ''from '' @ [dq] @ ''../lib/lib/foo'' @ [dq]"
    by code_simp
  show ?thesis
    using h e fix_imports_idempotent [OF h, of "[''home'', ''proj'']" "''from '' @ [dq] @ ''@/lib/foo'' @ [dq]"]
    by simp
qed

section \<open>Every occurrence of a matched text is rewritten\<close>

text \<open>
  C5. The loop body replaces the matched text as a substring of the whole content, not at
  the span of the match. For a file below \<^verbatim>\<open>src\<close> whose text holds a matched text \<open>m\<close> of
  a pattern twice, \<^verbatim>\<open>fix_imports\<close> writes the text with both occurrences replaced by the
  one replacement computed for \<open>m\<close>, which differs from \<open>m\<close>; so does the loop over the
  matches of that pattern alone, and so does already the loop body run once for \<open>m\<close>, which
  leaves no occurrence of \<open>m\<close>. The loop body for a later match with the same text then
  changes nothing. Where \<open>m\<close> is the first match, the loop is the loop body for \<open>m\<close> on the
  whole content followed by the loop bodies of the other matches.
\<close>

theorem every_occurrence_rewritten:
  assumes "src_file p" "(pat, tgt) \<in> set patterns" "match_at pat s = Some m"
  shows "rewrite_text (os_path_relpath cwd) cwd p (u @ m @ v @ m @ x)
           = rewrite_text (os_path_relpath cwd) cwd p u
             @ span_replacement (os_path_relpath cwd) cwd p tgt m
             @ rewrite_text (os_path_relpath cwd) cwd p v
             @ span_replacement (os_path_relpath cwd) cwd p tgt m
             @ rewrite_text (os_path_relpath cwd) cwd p x
       \<and> rewrite_pattern (os_path_relpath cwd) cwd p (pat, tgt) (u @ m @ v @ m @ x)
           = rewrite_pattern (os_path_relpath cwd) cwd p (pat, tgt) u
             @ span_replacement (os_path_relpath cwd) cwd p tgt m
             @ rewrite_pattern (os_path_relpath cwd) cwd p (pat, tgt) v
             @ span_replacement (os_path_relpath cwd) cwd p tgt m
             @ rewrite_pattern (os_path_relpath cwd) cwd p (pat, tgt) x
       \<and> span_replacement (os_path_relpath cwd) cwd p tgt m \<noteq> m
       \<and> (finditer pat c = m # ms \<longrightarrow>
            rewrite_pattern (os_path_relpath cwd) cwd p (pat, tgt) c
              = fold (rewrite_match (os_path_relpath cwd) cwd p tgt) ms
                  (rewrite_match (os_path_relpath cwd) cwd p tgt m c))
       \<and> rewrite_match (os_path_relpath cwd) cwd p tgt m (u @ m @ v @ m @ x)
           = rewrite_match (os_path_relpath cwd) cwd p tgt m u
             @ span_replacement (os_path_relpath cwd) cwd p tgt m
             @ rewrite_match (os_path_relpath cwd) cwd p tgt m v
             @ span_replacement (os_path_relpath cwd) cwd p tgt m
             @ rewrite_match (os_path_relpath cwd) cwd p tgt m x
       \<and> \<not> sublist m (rewrite_match (os_path_relpath cwd) cwd p tgt m c)
       \<and> rewrite_match (os_path_relpath cwd) cwd p tgt m
             (rewrite_match (os_path_relpath cwd) cwd p tgt m c)
           = rewrite_match (os_path_relpath cwd) cwd p tgt m c
       \<and> (files w p = Some (TextFile raw) \<and> unwritable w p = None
            \<and> univ_nl raw = u @ m @ v @ m @ x \<longrightarrow>
            files (snd (fix_imports (os_path_relpath cwd) cwd p w)) p
              = Some (TextFile
                  (rewrite_text (os_path_relpath cwd) cwd p u
                   @ span_replacement (os_path_relpath cwd) cwd p tgt m
                   @ rewrite_text (os_path_relpath cwd) cwd p v
                   @ span_replacement (os_path_relpath cwd) cwd p tgt m
                   @ rewrite_text (os_path_relpath cwd) cwd p x)))"
proof -
  let ?R = "os_path_relpath cwd"
  let ?N = "span_replacement ?R cwd p tgt m"
  obtain ob nb u0 t0 where f: "m = CHR ''f'' # ob" "CHR ''f'' \<notin> set ob"
    "nb = u0 @ CHR ''.'' # t0" "length u0 = 5" "?N = CHR ''f'' # nb"
    and rw: "\<And>c. rewrite_match ?R cwd p tgt m c = replace_str (CHR ''f'' # ob) (CHR ''f'' # nb) c"
    using rewrite_match_src [OF assms(1,2,3,2), of cwd] by blast
  have A: "rewrite_text ?R cwd p (u @ m @ v @ m @ x)
           = rewrite_text ?R cwd p u @ ?N @ rewrite_text ?R cwd p v @ ?N @ rewrite_text ?R cwd p x"
    using rewrite_text_matched_block [OF assms, of cwd u "v @ m @ x"]
      rewrite_text_matched_block [OF assms, of cwd v x] by simp
  have B: "rewrite_pattern ?R cwd p (pat, tgt) (u @ m @ v @ m @ x)
           = rewrite_pattern ?R cwd p (pat, tgt) u @ ?N
             @ rewrite_pattern ?R cwd p (pat, tgt) v @ ?N
             @ rewrite_pattern ?R cwd p (pat, tgt) x"
    using rewrite_pattern_matched_block [OF assms, of cwd u "v @ m @ x"]
      rewrite_pattern_matched_block [OF assms, of cwd v x] by simp
  have C: "?N \<noteq> m"
  proof
    assume "?N = m"
    then have "match_at pat (CHR ''f'' # nb @ []) = Some m"
      using match_at_any_suffix [OF assms(3), of "[]"] f(5) by simp
    then show False using pattern_rejects_new [OF assms(2) f(3,4), of "[]"] by simp
  qed
  have D: "finditer pat c = m # ms \<longrightarrow>
            rewrite_pattern ?R cwd p (pat, tgt) c
              = fold (rewrite_match ?R cwd p tgt) ms (rewrite_match ?R cwd p tgt m c)"
    by (simp add: rewrite_pattern_def)
  have E1: "rewrite_match ?R cwd p tgt m (u' @ m @ v')
           = rewrite_match ?R cwd p tgt m u' @ ?N @ rewrite_match ?R cwd p tgt m v'" for u' v'
    unfolding rw f(5) unfolding f(1) by (rule replace_str_distrib [OF f(2)])
  have E: "rewrite_match ?R cwd p tgt m (u @ m @ v @ m @ x)
           = rewrite_match ?R cwd p tgt m u @ ?N @ rewrite_match ?R cwd p tgt m v @ ?N
             @ rewrite_match ?R cwd p tgt m x"
    using E1 [of u "v @ m @ x"] E1 [of v x] by simp
  have F: "\<not> sublist m (rewrite_match ?R cwd p tgt m c)"
  proof
    assume "sublist m (rewrite_match ?R cwd p tgt m c)"
    then obtain u' v' where e: "rewrite_match ?R cwd p tgt m c = u' @ m @ v'"
      by (auto simp: sublist_def)
    obtain bp where bp: "pat = [CHR ''f''] # bp" "\<forall>cls\<in>set bp. CHR ''f'' \<notin> set cls"
      using pattern_marker [OF assms(2)] by blast
    have "match_at ([CHR ''f''] # bp) (m @ v') = Some m"
      using match_at_any_suffix [OF assms(3)] bp(1) by simp
    from finditer_complete [OF bp(2) this, of u']
    have "m \<in> set (finditer pat (rewrite_match ?R cwd p tgt m c))" unfolding e bp(1) .
    then show False
      using rewrite_match_matches [OF assms(1,2,3,2,2), of cwd c] by auto
  qed
  have "replace_str m (CHR ''f'' # nb) (rewrite_match ?R cwd p tgt m c)
        = rewrite_match ?R cwd p tgt m c"
    by (rule replace_str_absent [OF _ F]) (simp add: f(1))
  then have G: "rewrite_match ?R cwd p tgt m (rewrite_match ?R cwd p tgt m c)
                = rewrite_match ?R cwd p tgt m c"
    using rw f(1) by simp
  have H: "files w p = Some (TextFile raw) \<and> unwritable w p = None
            \<and> univ_nl raw = u @ m @ v @ m @ x \<longrightarrow>
            files (snd (fix_imports ?R cwd p w)) p
              = Some (TextFile (rewrite_text ?R cwd p u @ ?N @ rewrite_text ?R cwd p v @ ?N
                   @ rewrite_text ?R cwd p x))"
    using A by (simp add: fix_imports_text)
  show ?thesis using A B C D E F G H by blast
qed

theorem every_occurrence_rewritten_witness:
  "src_file (Rel [''src'', ''components'', ''x.ts''])
   \<and> (lit ''from '' @ [[dq, sq]] @ lit ''@/lib/'', ''lib'') \<in> set patterns
   \<and> match_at (lit ''from '' @ [[dq, sq]] @ lit ''@/lib/'') (''from '' @ [dq] @ ''@/lib/a'')
       = Some (''from '' @ [dq] @ ''@/lib/'')
   \<and> rewrite_text (os_path_relpath [''home'', ''proj'']) [''home'', ''proj'']
        (Rel [''src'', ''components'', ''x.ts''])
        (''import a '' @ (''from '' @ [dq] @ ''@/lib/'') @ (''a'' @ [dq, LF] @ ''import b '')
           @ (''from '' @ [dq] @ ''@/lib/'') @ (''b'' @ [dq]))
     = ''import a '' @ (''from '' @ [dq] @ ''../lib/lib/'') @ (''a'' @ [dq, LF] @ ''import b '')
           @ (''from '' @ [dq] @ ''../lib/lib/'') @ (''b'' @ [dq])"
proof -
  have h1: "src_file (Rel [''src'', ''components'', ''x.ts''])" by (simp add: proper_name_def)
  have h2: "(lit ''from '' @ [[dq, sq]] @ lit ''@/lib/'', ''lib'') \<in> set patterns"
    by (simp add: patterns_def)
  have h3: "match_at (lit ''from '' @ [[dq, sq]] @ lit ''@/lib/'') (''from '' @ [dq] @ ''@/lib/a'')
       = Some (''from '' @ [dq] @ ''@/lib/'')"
    by (simp add: lit_def)
  have e1: "rewrite_text (os_path_relpath [''home'', ''proj'']) [''home'', ''proj'']
        (Rel [''src'', ''components'', ''x.ts'']) ''import a '' = ''import a ''"
    by code_simp
  have e2: "rewrite_text (os_path_relpath [''home'', ''proj'']) [''home'', ''proj'']
        (Rel [''src'', ''components'', ''x.ts'']) (''a'' @ [dq, LF] @ ''import b '')
        = ''a'' @ [dq, LF] @ ''import b ''"
    by code_simp
  have e3: "rewrite_text (os_path_relpath [''home'', ''proj'']) [''home'', ''proj'']
        (Rel [''src'', ''components'', ''x.ts'']) (''b'' @ [dq]) = ''b'' @ [dq]"
    by code_simp
  have e4: "span_replacement (os_path_relpath [''home'', ''proj'']) [''home'', ''proj'']
        (Rel [''src'', ''components'', ''x.ts'']) ''lib'' (''from '' @ [dq] @ ''@/lib/'')
        = ''from '' @ [dq] @ ''../lib/lib/''"
    by code_simp
  have "rewrite_text (os_path_relpath [''home'', ''proj'']) [''home'', ''proj'']
        (Rel [''src'', ''components'', ''x.ts''])
        (''import a '' @ (''from '' @ [dq] @ ''@/lib/'') @ (''a'' @ [dq, LF] @ ''import b '')
           @ (''from '' @ [dq] @ ''@/lib/'') @ (''b'' @ [dq]))
     = ''import a '' @ (''from '' @ [dq] @ ''../lib/lib/'') @ (''a'' @ [dq, LF] @ ''import b '')
           @ (''from '' @ [dq] @ ''../lib/lib/'') @ (''b'' @ [dq])"
    using every_occurrence_rewritten [OF h1 h2 h3, of "[''home'', ''proj'']" "''import a ''"
        "''a'' @ [dq, LF] @ ''import b ''" "''b'' @ [dq]"]
    unfolding e1 e2 e3 e4 by blast
  then show ?thesis using h1 h2 h3 by blast
qed

section \<open>The relative path\<close>

text \<open>
  C6. \<^verbatim>\<open>get_relative_path\<close> computes the path from the directory of the file to the target
  directory: following its components from that directory leads to the target. The string
  returned has no backslash; it is the path with \<^verbatim>\<open>./\<close> in front when the path does not
  start with a dot, and the path itself otherwise.
\<close>

theorem get_relative_path_computes:
  "normpath_abs (abspath cwd (parent from_file) @ relpath_parts cwd to_dir (parent from_file))
     = abspath cwd to_dir
   \<and> (\<exists>r. os_path_relpath cwd to_dir (parent from_file) = Inr r
          \<and> r = (if relpath_parts cwd to_dir (parent from_file) = [] then ''.''
                 else join_sep (relpath_parts cwd to_dir (parent from_file)))
          \<and> bslash \<notin> set (replace_str [bslash] ''/'' r)
          \<and> (\<not> prefix ''.'' (replace_str [bslash] ''/'' r) \<longrightarrow>
               get_relative_path (os_path_relpath cwd) from_file to_dir
                 = Some (''./'' @ replace_str [bslash] ''/'' r))
          \<and> (prefix ''.'' (replace_str [bslash] ''/'' r) \<longrightarrow>
               get_relative_path (os_path_relpath cwd) from_file to_dir
                 = Some (replace_str [bslash] ''/'' r)))"
proof -
  have 1: "normpath_abs (abspath cwd (parent from_file) @ relpath_parts cwd to_dir (parent from_file))
     = abspath cwd to_dir"
    by (rule relpath_parts_reaches)
  have 2: "bslash \<notin> set (replace_str [bslash] ''/'' r)" for r
    by (rule replace_str_removes) simp
  show ?thesis using 1 2 by (simp add: os_path_relpath_def get_relative_path_def Let_def)
qed

theorem get_relative_path_computes_witness:
  "\<not> prefix ''.'' (replace_str [bslash] ''/'' ''lib'')
   \<and> os_path_relpath [''home'', ''proj''] (Abs [''home'', ''proj'', ''src'', ''lib''])
        (parent (Rel [''src'', ''x.ts''])) = Inr ''lib''
   \<and> get_relative_path (os_path_relpath [''home'', ''proj'']) (Rel [''src'', ''x.ts''])
        (Abs [''home'', ''proj'', ''src'', ''lib'']) = Some ''./lib''"
proof -
  have e: "os_path_relpath [''home'', ''proj''] (Abs [''home'', ''proj'', ''src'', ''lib''])
        (parent (Rel [''src'', ''x.ts''])) = Inr ''lib''"
    by code_simp
  have n: "replace_str [bslash] ''/'' ''lib'' = ''lib''" by code_simp
  show ?thesis
    using e n get_relative_path_computes [of "[''home'', ''proj'']" "Rel [''src'', ''x.ts'']"
      "Abs [''home'', ''proj'', ''src'', ''lib'']"]
    by auto
qed

section \<open>Errors of the path computation, and what \<^verbatim>\<open>fix_imports\<close> reports\<close>

text \<open>
  C7, as stated: \<^verbatim>\<open>fix_imports\<close> reports success for every readable file. The file is
  opened a second time, for writing, outside any \<^verbatim>\<open>try\<close>. A text file that can be read
  but not written is read, and the second \<^verbatim>\<open>open\<close> raises: the call reports no success,
  and the run that meets the file stops without a total.
\<close>

theorem unwritable_file_no_success:
  "files \<lparr>files = [Rel [''src'', ''x.ts''] \<mapsto> TextFile ''let a = 1''],
           tree = [Rel [''src'', ''x.ts'']], stdout = [], opened = [],
           unwritable = [Rel [''src'', ''x.ts''] \<mapsto> PermissionError]\<rparr> (Rel [''src'', ''x.ts''])
     = Some (TextFile ''let a = 1'')
   \<and> fst (fix_imports (os_path_relpath [''home'', ''proj'']) [''home'', ''proj'']
        (Rel [''src'', ''x.ts''])
        \<lparr>files = [Rel [''src'', ''x.ts''] \<mapsto> TextFile ''let a = 1''],
          tree = [Rel [''src'', ''x.ts'']], stdout = [], opened = [],
          unwritable = [Rel [''src'', ''x.ts''] \<mapsto> PermissionError]\<rparr>) = Inl PermissionError
   \<and> fst (run (os_path_relpath [''home'', ''proj'']) [''home'', ''proj'']
        \<lparr>files = [Rel [''src'', ''x.ts''] \<mapsto> TextFile ''let a = 1''],
          tree = [Rel [''src'', ''x.ts'']], stdout = [], opened = [],
          unwritable = [Rel [''src'', ''x.ts''] \<mapsto> PermissionError]\<rparr>) = Inl PermissionError"
  by (simp add: fix_imports_def run_def rglob_def Let_def)

text \<open>
  C7, amended. When \<^verbatim>\<open>os.path.relpath\<close> raises, \<^verbatim>\<open>get_relative_path\<close> returns \<^verbatim>\<open>None\<close> and
  the loop body leaves the content as it is; when it raises for each of the four targets,
  the whole text is left as it is. Whatever \<^verbatim>\<open>os.path.relpath\<close> does, \<^verbatim>\<open>fix_imports\<close>
  returns \<^verbatim>\<open>True\<close> for every text file that can be read and opened for writing, matched
  or not, and it never returns \<^verbatim>\<open>False\<close>.
\<close>

theorem relpath_error_swallowed:
  "(relpath (joinpath (absolute cwd (Rel [''src''])) target_dir) (parent file_path) = Inl e \<longrightarrow>
      get_relative_path relpath file_path (joinpath (absolute cwd (Rel [''src''])) target_dir) = None
      \<and> rewrite_match relpath cwd file_path target_dir old_import content = content)
   \<and> (list_all (\<lambda>pt. isl (relpath (joinpath (absolute cwd (Rel [''src''])) (snd pt))
                              (parent file_path))) patterns \<longrightarrow>
      rewrite_text relpath cwd file_path content = content)
   \<and> (files w file_path = Some (TextFile raw) \<and> unwritable w file_path = None \<longrightarrow>
      fst (fix_imports relpath cwd file_path w) = Inr True
      \<and> files (snd (fix_imports relpath cwd file_path w)) file_path
          = Some (TextFile (rewrite_text relpath cwd file_path (univ_nl raw))))
   \<and> fst (fix_imports relpath cwd file_path w) \<noteq> Inr False"
proof -
  have 1: "relpath (joinpath (absolute cwd (Rel [''src''])) target_dir) (parent file_path) = Inl e \<longrightarrow>
      get_relative_path relpath file_path (joinpath (absolute cwd (Rel [''src''])) target_dir) = None
      \<and> rewrite_match relpath cwd file_path target_dir old_import content = content"
    by (simp add: get_relative_path_def rewrite_match_def)
  have 2: "list_all (\<lambda>pt. isl (relpath (joinpath (absolute cwd (Rel [''src''])) (snd pt))
                              (parent file_path))) patterns \<longrightarrow>
      rewrite_text relpath cwd file_path content = content"
  proof
    assume "list_all (\<lambda>pt. isl (relpath (joinpath (absolute cwd (Rel [''src''])) (snd pt))
                              (parent file_path))) patterns"
    then show "rewrite_text relpath cwd file_path content = content"
      unfolding rewrite_text_def by (rule fold_rewrite_pattern_relpath_fails)
  qed
  have 3: "files w file_path = Some (TextFile raw) \<and> unwritable w file_path = None \<longrightarrow>
      fst (fix_imports relpath cwd file_path w) = Inr True
      \<and> files (snd (fix_imports relpath cwd file_path w)) file_path
          = Some (TextFile (rewrite_text relpath cwd file_path (univ_nl raw)))"
    by (simp add: fix_imports_text)
  show ?thesis using 1 2 3 fix_imports_never_False by blast
qed

theorem relpath_error_swallowed_witness:
  "(\<lambda>path start. Inl ValueError) (joinpath (absolute [''home'', ''proj''] (Rel [''src''])) ''lib'')
       (parent (Rel [''src'', ''x.ts''])) = (Inl ValueError :: error + string)
   \<and> list_all (\<lambda>pt. isl ((\<lambda>path start. Inl ValueError :: error + string)
          (joinpath (absolute [''home'', ''proj''] (Rel [''src''])) (snd pt))
          (parent (Rel [''src'', ''x.ts'']))) ) patterns
   \<and> files \<lparr>files = [Rel [''src'', ''x.ts''] \<mapsto> TextFile (''from '' @ [dq] @ ''@/lib/a'' @ [dq])],
             tree = [Rel [''src'', ''x.ts'']], stdout = [], opened = [], unwritable = Map.empty\<rparr>
        (Rel [''src'', ''x.ts''])
       = Some (TextFile (''from '' @ [dq] @ ''@/lib/a'' @ [dq]))
   \<and> unwritable \<lparr>files = [Rel [''src'', ''x.ts''] \<mapsto> TextFile (''from '' @ [dq] @ ''@/lib/a'' @ [dq])],
             tree = [Rel [''src'', ''x.ts'']], stdout = [], opened = [], unwritable = Map.empty\<rparr>
        (Rel [''src'', ''x.ts'']) = None
   \<and> rewrite_match (\<lambda>path start. Inl ValueError) [''home'', ''proj''] (Rel [''src'', ''x.ts''])
        ''lib'' (''from '' @ [dq] @ ''@/lib/'') (''from '' @ [dq] @ ''@/lib/a'' @ [dq])
       = ''from '' @ [dq] @ ''@/lib/a'' @ [dq]
   \<and> rewrite_text (\<lambda>path start. Inl ValueError) [''home'', ''proj''] (Rel [''src'', ''x.ts''])
        (''from '' @ [dq] @ ''@/lib/a'' @ [dq])
       = ''from '' @ [dq] @ ''@/lib/a'' @ [dq]
   \<and> fst (fix_imports (\<lambda>path start. Inl ValueError) [''home'', ''proj''] (Rel [''src'', ''x.ts''])
        \<lparr>files = [Rel [''src'', ''x.ts''] \<mapsto> TextFile (''from '' @ [dq] @ ''@/lib/a'' @ [dq])],
          tree = [Rel [''src'', ''x.ts'']], stdout = [], opened = [], unwritable = Map.empty\<rparr>)
       = Inr True"
proof -
  have h: "list_all (\<lambda>pt. isl ((\<lambda>path start. Inl ValueError :: error + string)
          (joinpath (absolute [''home'', ''proj''] (Rel [''src''])) (snd pt))
          (parent (Rel [''src'', ''x.ts'']))) ) patterns"
    by (simp add: patterns_def)
  show ?thesis
    using h relpath_error_swallowed [of "\<lambda>path start. Inl ValueError" "[''home'', ''proj'']" "''lib''"
      "Rel [''src'', ''x.ts'']" ValueError "''from '' @ [dq] @ ''@/lib/''"
      "''from '' @ [dq] @ ''@/lib/a'' @ [dq]"
      "\<lparr>files = [Rel [''src'', ''x.ts''] \<mapsto> TextFile (''from '' @ [dq] @ ''@/lib/a'' @ [dq])],
          tree = [Rel [''src'', ''x.ts'']], stdout = [], opened = [], unwritable = Map.empty\<rparr>"
      "''from '' @ [dq] @ ''@/lib/a'' @ [dq]"]
    by simp
qed

section \<open>Files without alias imports\<close>

text \<open>
  C8, as stated: a file without any alias import is left byte for byte as it was and is
  counted. The file is read in text mode, where \<^verbatim>\<open>\r\n\<close> becomes \<^verbatim>\<open>\n\<close>, and written back
  as read: a file holding \<^verbatim>\<open>a\r\nb\<close> has no alias import and holds \<^verbatim>\<open>a\nb\<close> afterwards.
  And a file without alias imports that cannot be opened for writing is not counted: the
  run stops there and prints no total.
\<close>

theorem no_alias_file_changed_or_uncounted:
  "alias_matches [CHR ''a'', CR, LF, CHR ''b''] = []
   \<and> files \<lparr>files = [Rel [''src'', ''x.ts''] \<mapsto> TextFile [CHR ''a'', CR, LF, CHR ''b'']],
             tree = [Rel [''src'', ''x.ts'']], stdout = [], opened = [], unwritable = Map.empty\<rparr>
        (Rel [''src'', ''x.ts''])
       = Some (TextFile [CHR ''a'', CR, LF, CHR ''b''])
   \<and> files (snd (fix_imports (os_path_relpath [''home'', ''proj'']) [''home'', ''proj'']
        (Rel [''src'', ''x.ts''])
        \<lparr>files = [Rel [''src'', ''x.ts''] \<mapsto> TextFile [CHR ''a'', CR, LF, CHR ''b'']],
          tree = [Rel [''src'', ''x.ts'']], stdout = [], opened = [], unwritable = Map.empty\<rparr>))
        (Rel [''src'', ''x.ts''])
       = Some (TextFile [CHR ''a'', LF, CHR ''b''])
   \<and> alias_matches ''let a = 1'' = []
   \<and> run (os_path_relpath [''home'', ''proj'']) [''home'', ''proj'']
        \<lparr>files = [Rel [''src'', ''x.ts''] \<mapsto> TextFile ''let a = 1''],
          tree = [Rel [''src'', ''x.ts'']], stdout = [], opened = [],
          unwritable = [Rel [''src'', ''x.ts''] \<mapsto> PermissionError]\<rparr>
       = (Inl PermissionError,
          \<lparr>files = [Rel [''src'', ''x.ts''] \<mapsto> TextFile ''let a = 1''],
           tree = [Rel [''src'', ''x.ts'']], stdout = [],
           opened = [Rel [''src'', ''x.ts''], Rel [''src'', ''x.ts'']],
           unwritable = [Rel [''src'', ''x.ts''] \<mapsto> PermissionError]\<rparr>)"
proof -
  have a: "alias_matches [CHR ''a'', CR, LF, CHR ''b''] = []" by code_simp
  have b: "alias_matches [CHR ''a'', LF, CHR ''b''] = []" by code_simp
  have c: "alias_matches ''let a = 1'' = []" by code_simp
  have u: "univ_nl [CHR ''a'', CR, LF, CHR ''b''] = [CHR ''a'', LF, CHR ''b'']" by simp
  show ?thesis using a c
    by (simp add: fix_imports_def run_def rglob_def Let_def u rewrite_text_id [OF b])
qed

text \<open>
  C8, amended: a text file that can be opened for writing and in which, as read, no pattern
  matches is written back as read. Its content is the old content with the newlines
  translated, which is the old content itself when the file has no carriage return. The
  call returns \<^verbatim>\<open>True\<close>, and the loop counts the file.
\<close>

theorem no_alias_file_kept:
  assumes "files w p = Some (TextFile raw)" "unwritable w p = None"
    "alias_matches (univ_nl raw) = []"
  shows "files (snd (fix_imports relpath cwd p w)) = (files w)(p \<mapsto> TextFile (univ_nl raw))
       \<and> (CR \<notin> set raw \<longrightarrow> files (snd (fix_imports relpath cwd p w)) = files w)
       \<and> fst (fix_imports relpath cwd p w) = Inr True
       \<and> fst (run_loop relpath cwd [p] n w) = Inr (n + 1)"
proof -
  have "(files w)(p \<mapsto> TextFile raw) = files w" using assms(1) by (rule map_upd_triv)
  then show ?thesis
    using assms by (auto simp: fix_imports_text rewrite_text_id univ_nl_id)
qed

theorem no_alias_file_kept_witness:
  "files \<lparr>files = [Rel [''src'', ''x.ts''] \<mapsto> TextFile ''let a = 1''],
           tree = [Rel [''src'', ''x.ts'']], stdout = [], opened = [], unwritable = Map.empty\<rparr>
      (Rel [''src'', ''x.ts''])
     = Some (TextFile ''let a = 1'')
   \<and> unwritable \<lparr>files = [Rel [''src'', ''x.ts''] \<mapsto> TextFile ''let a = 1''],
           tree = [Rel [''src'', ''x.ts'']], stdout = [], opened = [], unwritable = Map.empty\<rparr>
      (Rel [''src'', ''x.ts'']) = None
   \<and> alias_matches (univ_nl ''let a = 1'') = []
   \<and> CR \<notin> set ''let a = 1''
   \<and> files (snd (fix_imports (os_path_relpath [''home'', ''proj'']) [''home'', ''proj'']
        (Rel [''src'', ''x.ts''])
        \<lparr>files = [Rel [''src'', ''x.ts''] \<mapsto> TextFile ''let a = 1''],
          tree = [Rel [''src'', ''x.ts'']], stdout = [], opened = [], unwritable = Map.empty\<rparr>))
     = [Rel [''src'', ''x.ts''] \<mapsto> TextFile ''let a = 1'']
   \<and> fst (run_loop (os_path_relpath [''home'', ''proj'']) [''home'', ''proj'']
        [Rel [''src'', ''x.ts'']] 0
        \<lparr>files = [Rel [''src'', ''x.ts''] \<mapsto> TextFile ''let a = 1''],
          tree = [Rel [''src'', ''x.ts'']], stdout = [], opened = [], unwritable = Map.empty\<rparr>)
     = Inr 1"
proof -
  let ?w = "\<lparr>files = [Rel [''src'', ''x.ts''] \<mapsto> TextFile ''let a = 1''],
          tree = [Rel [''src'', ''x.ts'']], stdout = [], opened = [], unwritable = Map.empty\<rparr>"
  have h1: "files ?w (Rel [''src'', ''x.ts'']) = Some (TextFile ''let a = 1'')" by simp
  have h0: "unwritable ?w (Rel [''src'', ''x.ts'']) = None" by simp
  have h2: "alias_matches (univ_nl ''let a = 1'') = []" by code_simp
  have h3: "CR \<notin> set ''let a = 1''" by simp
  show ?thesis
    using h1 h0 h2 h3 no_alias_file_kept [OF h1 h0 h2, of "os_path_relpath [''home'', ''proj'']"
      "[''home'', ''proj'']" 0]
    by simp
qed

section \<open>Only the matching files are touched\<close>

text \<open>
  C9. The run opens only entries that \<^verbatim>\<open>rglob('*.ts*')\<close> yields. An entry that the glob
  does not match keeps its content and is not opened, whether the run ends normally or
  stops at an error. When the run ends normally, the files processed are exactly the
  matching entries, in the order of the walk: each is opened for reading and for writing,
  printed, and counted.
\<close>

theorem run_touches_only_matching:
  "set (opened (snd (run relpath cwd w))) \<subseteq> set (opened w) \<union> set (filter glob_ts (tree w))
   \<and> (\<not> glob_ts q \<longrightarrow>
        files (snd (run relpath cwd w)) q = files w q
        \<and> (q \<in> set (opened (snd (run relpath cwd w))) \<longrightarrow> q \<in> set (opened w)))
   \<and> (fst (run relpath cwd w) = Inr n \<longrightarrow>
        n = length (filter glob_ts (tree w))
        \<and> stdout (snd (run relpath cwd w))
            = stdout w @ map Fixed (filter glob_ts (tree w)) @ [Total n]
        \<and> opened (snd (run relpath cwd w))
            = opened w @ concat (map (\<lambda>p. [p, p]) (filter glob_ts (tree w))))"
proof -
  let ?l = "run_loop relpath cwd (rglob w) 0 w"
  have op: "set (opened (snd ?l)) \<subseteq> set (opened w) \<union> set (rglob w)"
    by (rule run_loop_opened)
  have fl: "\<not> glob_ts q \<Longrightarrow> files (snd ?l) q = files w q"
    by (rule run_loop_files) (simp add: rglob_def)
  have same: "opened (snd (run relpath cwd w)) = opened (snd ?l)"
    "files (snd (run relpath cwd w)) = files (snd ?l)"
    using run_cases [of relpath cwd w] by auto
  have 1: "set (opened (snd (run relpath cwd w))) \<subseteq> set (opened w) \<union> set (filter glob_ts (tree w))"
    using op same by (simp add: rglob_def)
  have 2: "\<not> glob_ts q \<longrightarrow> files (snd (run relpath cwd w)) q = files w q
        \<and> (q \<in> set (opened (snd (run relpath cwd w))) \<longrightarrow> q \<in> set (opened w))"
    using fl 1 same by auto
  have 3: "fst (run relpath cwd w) = Inr n \<longrightarrow>
        n = length (filter glob_ts (tree w))
        \<and> stdout (snd (run relpath cwd w))
            = stdout w @ map Fixed (filter glob_ts (tree w)) @ [Total n]
        \<and> opened (snd (run relpath cwd w))
            = opened w @ concat (map (\<lambda>p. [p, p]) (filter glob_ts (tree w)))"
  proof
    assume a: "fst (run relpath cwd w) = Inr n"
    then have r: "run relpath cwd w = (Inr n, (snd ?l)\<lparr>stdout := stdout (snd ?l) @ [Total n]\<rparr>)"
      and l: "fst ?l = Inr n"
      using run_cases [of relpath cwd w] by auto
    from run_loop_success [OF l] show "n = length (filter glob_ts (tree w))
        \<and> stdout (snd (run relpath cwd w))
            = stdout w @ map Fixed (filter glob_ts (tree w)) @ [Total n]
        \<and> opened (snd (run relpath cwd w))
            = opened w @ concat (map (\<lambda>p. [p, p]) (filter glob_ts (tree w)))"
      unfolding r by (simp add: rglob_def)
  qed
  show ?thesis using 1 2 3 by blast
qed

theorem run_touches_only_matching_witness:
  "\<not> glob_ts (Rel [''src'', ''notes.txt''])
   \<and> fst (run (os_path_relpath [''home'', ''proj'']) [''home'', ''proj'']
        \<lparr>files = [Rel [''src'', ''a.ts''] \<mapsto> TextFile (''from '' @ [dq] @ ''@/lib/a'' @ [dq]),
                   Rel [''src'', ''notes.txt''] \<mapsto> TextFile (''from '' @ [dq] @ ''@/lib/a'' @ [dq])],
          tree = [Rel [''src'', ''a.ts''], Rel [''src'', ''notes.txt'']],
          stdout = [], opened = [], unwritable = Map.empty\<rparr>) = Inr 1
   \<and> files (snd (run (os_path_relpath [''home'', ''proj'']) [''home'', ''proj'']
        \<lparr>files = [Rel [''src'', ''a.ts''] \<mapsto> TextFile (''from '' @ [dq] @ ''@/lib/a'' @ [dq]),
                   Rel [''src'', ''notes.txt''] \<mapsto> TextFile (''from '' @ [dq] @ ''@/lib/a'' @ [dq])],
          tree = [Rel [''src'', ''a.ts''], Rel [''src'', ''notes.txt'']],
          stdout = [], opened = [], unwritable = Map.empty\<rparr>)) (Rel [''src'', ''notes.txt''])
     = Some (TextFile (''from '' @ [dq] @ ''@/lib/a'' @ [dq]))
   \<and> opened (snd (run (os_path_relpath [''home'', ''proj'']) [''home'', ''proj'']
        \<lparr>files = [Rel [''src'', ''a.ts''] \<mapsto> TextFile (''from '' @ [dq] @ ''@/lib/a'' @ [dq]),
                   Rel [''src'', ''notes.txt''] \<mapsto> TextFile (''from '' @ [dq] @ ''@/lib/a'' @ [dq])],
          tree = [Rel [''src'', ''a.ts''], Rel [''src'', ''notes.txt'']],
          stdout = [], opened = [], unwritable = Map.empty\<rparr>)) = [Rel [''src'', ''a.ts''], Rel [''src'', ''a.ts'']]"
proof -
  let ?w = "\<lparr>files = [Rel [''src'', ''a.ts''] \<mapsto> TextFile (''from '' @ [dq] @ ''@/lib/a'' @ [dq]),
                   Rel [''src'', ''notes.txt''] \<mapsto> TextFile (''from '' @ [dq] @ ''@/lib/a'' @ [dq])],
          tree = [Rel [''src'', ''a.ts''], Rel [''src'', ''notes.txt'']],
          stdout = [], opened = [], unwritable = Map.empty\<rparr>"
  have h1: "\<not> glob_ts (Rel [''src'', ''notes.txt''])" by simp
  have g: "glob_ts (Rel [''src'', ''a.ts''])" by simp
  have ok: "fst (run (os_path_relpath [''home'', ''proj'']) [''home'', ''proj''] ?w) = Inr 1"
    using g h1 by (simp add: run_def rglob_def fix_imports_def Let_def)
  show ?thesis
    using h1 g ok run_touches_only_matching [of "os_path_relpath [''home'', ''proj'']"
      "[''home'', ''proj'']" ?w "Rel [''src'', ''notes.txt'']" 1]
    by simp
qed

section \<open>Whole-content replacement against replacement at each span\<close>

text \<open>
  C10. For a file below \<^verbatim>\<open>src\<close> and one pattern, the relative path is one and the same
  for all matches: it is computed from the path of the file and the target directory only.
  The loop over the matches of the pattern, which replaces in the whole content, gives the
  same text as replacing each match at its own span by the replacement computed for it.
\<close>

theorem rewrite_pattern_spanwise:
  assumes "src_file p" "pt \<in> set patterns"
  shows "(\<exists>rel. get_relative_path (os_path_relpath cwd) p
                   (joinpath (absolute cwd (Rel [''src''])) (snd pt)) = Some rel
              \<and> (\<forall>m c. rewrite_match (os_path_relpath cwd) cwd p (snd pt) m c
                         = replace_str m (replace_str ''@/'' (rel @ ''/'') m) c))
       \<and> rewrite_pattern (os_path_relpath cwd) cwd p pt c
           = span_rewrite_pattern (os_path_relpath cwd) cwd p pt c"
proof -
  obtain pat tgt where e: "pt = (pat, tgt)" by (cases pt) auto
  have "tgt \<in> {''components'', ''lib'', ''context'', ''types''}"
    using patterns_target assms(2) unfolding e by blast
  then have "proper_name tgt" by (auto simp: proper_name_def)
  then obtain r where r: "get_relative_path (os_path_relpath cwd) p
        (joinpath (absolute cwd (Rel [''src''])) tgt) = Some (CHR ''.'' # r)"
    using get_relative_path_src [OF assms(1)] by blast
  have "rewrite_match (os_path_relpath cwd) cwd p tgt m c
        = replace_str m (replace_str ''@/'' ((CHR ''.'' # r) @ ''/'') m) c" for m c
    using r by (simp add: rewrite_match_def)
  then show ?thesis using r rewrite_pattern_spans [OF assms, of cwd c] unfolding e
    by (metis snd_conv)
qed

theorem rewrite_pattern_spanwise_witness:
  "src_file (Rel [''src'', ''components'', ''x.ts''])
   \<and> (lit ''from '' @ [[dq, sq]] @ lit ''@/lib/'', ''lib'') \<in> set patterns
   \<and> rewrite_pattern (os_path_relpath [''home'', ''proj'']) [''home'', ''proj'']
        (Rel [''src'', ''components'', ''x.ts'']) (lit ''from '' @ [[dq, sq]] @ lit ''@/lib/'', ''lib'')
        (''from '' @ [dq] @ ''@/lib/a'' @ [dq, LF] @ ''from '' @ [sq] @ ''@/lib/b'' @ [sq])
     = span_rewrite_pattern (os_path_relpath [''home'', ''proj'']) [''home'', ''proj'']
        (Rel [''src'', ''components'', ''x.ts'']) (lit ''from '' @ [[dq, sq]] @ lit ''@/lib/'', ''lib'')
        (''from '' @ [dq] @ ''@/lib/a'' @ [dq, LF] @ ''from '' @ [sq] @ ''@/lib/b'' @ [sq])"
proof -
  have h1: "src_file (Rel [''src'', ''components'', ''x.ts''])" by (simp add: proper_name_def)
  have h2: "(lit ''from '' @ [[dq, sq]] @ lit ''@/lib/'', ''lib'') \<in> set patterns"
    by (simp add: patterns_def)
  show ?thesis
    using h1 h2 rewrite_pattern_spanwise [OF h1 h2, of "[''home'', ''proj'']"
      "''from '' @ [dq] @ ''@/lib/a'' @ [dq, LF] @ ''from '' @ [sq] @ ''@/lib/b'' @ [sq]"]
    by blast
qed

end
